theory Spec2Isabelle
  imports Complex_Main "HOL-Library.Word" "HOL-Library.List_Lexorder" "HOL-Library.Multiset"
begin

section \<open>Strings of the script\<close>

text \<open>
  A string of the script is a sequence of 16-bit code units. All the regular
  expressions of \<^verbatim>\<open>scripts/sync-blog.ts\<close> are written without the \<^verbatim>\<open>u\<close> flag, so
  they too work on code units; \<^verbatim>\<open>length\<close> and \<^verbatim>\<open>substring\<close> count code units.
\<close>

type_synonym jschar = "16 word"
type_synonym jsstring = "jschar list"

definition js :: "string \<Rightarrow> jsstring" where
  "js s = map (\<lambda>c. of_nat (of_char c)) s"

text \<open>
  The class \<^verbatim>\<open>\s\<close> of the regular expressions, which is also the set of code
  units removed by \<^verbatim>\<open>trim\<close>: white space and line terminators.
\<close>

definition isSpace :: "jschar \<Rightarrow> bool" where
  "isSpace c \<longleftrightarrow>
     (9 \<le> c \<and> c \<le> 13) \<or> c = 32 \<or> c = 160 \<or> c = 5760 \<or>
     (8192 \<le> c \<and> c \<le> 8202) \<or> c = 8232 \<or> c = 8233 \<or> c = 8239 \<or>
     c = 8287 \<or> c = 12288 \<or> c = 65279"

text \<open>The class of the code units from U+4E00 to U+9FA5.\<close>

definition isChinese :: "jschar \<Rightarrow> bool" where
  "isChinese c \<longleftrightarrow> 0x4e00 \<le> c \<and> c \<le> 0x9fa5"

text \<open>The class \<^verbatim>\<open>.\<close>: every code unit but the four line terminators.\<close>

definition isDot :: "jschar \<Rightarrow> bool" where
  "isDot c \<longleftrightarrow> c \<noteq> 10 \<and> c \<noteq> 13 \<and> c \<noteq> 8232 \<and> c \<noteq> 8233"

section \<open>Regular expressions with backtracking\<close>

text \<open>
  The fragment of the regular expression language that the script uses: classes of
  one code unit, sequence, alternative, the greedy and the lazy star, one capture
  group, and the two anchors (without the \<^verbatim>\<open>m\<close> flag).
\<close>

datatype regex =
    Eps
  | Atom "jschar \<Rightarrow> bool"
  | Seq regex regex
  | Alt regex regex
  | Star regex
  | Lazy regex
  | Group regex
  | Bol
  | Eol

text \<open>
  A matcher state: whether the position is the start of the input, the input that
  is left, and the text captured by group 1 (if it has matched).
\<close>

type_synonym mstate = "bool \<times> jsstring \<times> jsstring option"

text \<open>
  \<open>ms r st\<close> lists the states in which \<open>r\<close> can end when started in \<open>st\<close>, in the
  order in which a backtracking matcher tries them. An iteration of a star that
  consumes nothing is rejected, as the language's repeat matcher does.
\<close>

fun ms :: "regex \<Rightarrow> mstate \<Rightarrow> mstate list" where
  "ms Eps st = [st]"
| "ms (Atom P) (b, s, cap) =
     (case s of [] \<Rightarrow> [] | c # cs \<Rightarrow> if P c then [(False, cs, cap)] else [])"
| "ms (Seq r1 r2) st = concat (map (ms r2) (ms r1 st))"
| "ms (Alt r1 r2) st = ms r1 st @ ms r2 st"
| "ms (Star r) (b, s, cap) =
     concat (map (\<lambda>st'. if length (fst (snd st')) < length s then ms (Star r) st' else [])
                 (ms r (b, s, cap))) @ [(b, s, cap)]"
| "ms (Lazy r) (b, s, cap) =
     (b, s, cap) #
     concat (map (\<lambda>st'. if length (fst (snd st')) < length s then ms (Lazy r) st' else [])
                 (ms r (b, s, cap)))"
| "ms (Group r) (b, s, cap) =
     map (\<lambda>(b', s', cap'). (b', s', Some (take (length s - length s') s))) (ms r (b, s, cap))"
| "ms Bol (b, s, cap) = (if b then [(b, s, cap)] else [])"
| "ms Eol (b, s, cap) = (if s = [] then [(b, s, cap)] else [])"

text \<open>The first way to match \<open>r\<close> at the current position, if there is one.\<close>

definition exec :: "regex \<Rightarrow> bool \<Rightarrow> jsstring \<Rightarrow> mstate option" where
  "exec r b s = (case ms r (b, s, None) of [] \<Rightarrow> None | st # _ \<Rightarrow> Some st)"


section \<open>Global replace, global match and split\<close>

text \<open>The replacement texts of the script: a literal text, or \<^verbatim>\<open>'$1'\<close>.\<close>

datatype repl = Text jsstring | Group1

fun expand :: "repl \<Rightarrow> jsstring option \<Rightarrow> jsstring" where
  "expand (Text t) cap = t"
| "expand Group1 cap = (case cap of None \<Rightarrow> [] | Some g \<Rightarrow> g)"

text \<open>
  \<^verbatim>\<open>s.replace(/r/g, rep)\<close>, scanning from the left. Where there is no match the
  code unit is copied; after a match that consumed something the scan goes on
  behind it; after an empty match one code unit is copied and the scan advances.
  The flag says whether the scan is still at the start of the input.
\<close>

fun replace_from :: "regex \<Rightarrow> repl \<Rightarrow> bool \<Rightarrow> jsstring \<Rightarrow> jsstring" where
  "replace_from r rep b s =
     (case exec r b s of
        None \<Rightarrow> (case s of [] \<Rightarrow> [] | c # cs \<Rightarrow> c # replace_from r rep False cs)
      | Some (b', s', cap) \<Rightarrow>
          expand rep cap @
          (if length s' < length s then replace_from r rep False s'
           else (case s of [] \<Rightarrow> [] | c # cs \<Rightarrow> c # replace_from r rep False cs)))"

definition replace :: "regex \<Rightarrow> repl \<Rightarrow> jsstring \<Rightarrow> jsstring" where
  "replace r rep s = replace_from r rep True s"

text \<open>\<^verbatim>\<open>s.match(/r/g)\<close>: the matched texts from left to right, \<^verbatim>\<open>null\<close> if there is none.\<close>

fun matches_from :: "regex \<Rightarrow> bool \<Rightarrow> jsstring \<Rightarrow> jsstring list" where
  "matches_from r b s =
     (case exec r b s of
        None \<Rightarrow> (case s of [] \<Rightarrow> [] | c # cs \<Rightarrow> matches_from r False cs)
      | Some (b', s', cap) \<Rightarrow>
          take (length s - length s') s #
          (if length s' < length s then matches_from r False s'
           else (case s of [] \<Rightarrow> [] | c # cs \<Rightarrow> matches_from r False cs)))"

definition match :: "regex \<Rightarrow> jsstring \<Rightarrow> jsstring list option" where
  "match r s = (case matches_from r True s of [] \<Rightarrow> None | m # ms' \<Rightarrow> Some (m # ms'))"

text \<open>
  \<^verbatim>\<open>s.split(/r/)\<close> for a pattern without capture group: \<open>cur\<close> is the piece since
  the last separator, \<open>s\<close> the input from the scan position on. A match that ends
  where the current piece starts does not split.
\<close>

function split_from :: "regex \<Rightarrow> bool \<Rightarrow> jsstring \<Rightarrow> jsstring \<Rightarrow> jsstring list" where
  "split_from r b cur s =
     (case s of
        [] \<Rightarrow> [cur]
      | c # cs \<Rightarrow>
          (case exec r b s of
             None \<Rightarrow> split_from r False (cur @ [c]) cs
           | Some (b', s', cap) \<Rightarrow>
               if length s' < length s then cur # split_from r False [] s'
               else if cur = [] then split_from r False (cur @ [c]) cs
               else cur # split_from r b [] s))"
  by pat_completeness auto
termination
  by (relation "measures [\<lambda>(r, b, cur, s). length s, \<lambda>(r, b, cur, s). length cur]") auto

definition split :: "regex \<Rightarrow> jsstring \<Rightarrow> jsstring list" where
  "split r s =
     (if s = [] then (case exec r True [] of None \<Rightarrow> [ [] ] | Some st \<Rightarrow> [])
      else split_from r True [] s)"

text \<open>\<^verbatim>\<open>s.trim()\<close> and \<^verbatim>\<open>s.substring(0, n)\<close>.\<close>

definition trim :: "jsstring \<Rightarrow> jsstring" where
  "trim s = rev (dropWhile isSpace (rev (dropWhile isSpace s)))"

definition substring0 :: "nat \<Rightarrow> jsstring \<Rightarrow> jsstring" where
  "substring0 n s = take n s"

section \<open>The patterns of the script\<close>

definition lit :: "jschar \<Rightarrow> regex" where
  "lit c = Atom (\<lambda>x. x = c)"

fun seqs :: "regex list \<Rightarrow> regex" where
  "seqs [] = Eps"
| "seqs [r] = r"
| "seqs (r # rs) = Seq r (seqs rs)"

text \<open>\<^verbatim>\<open>r+\<close>, \<^verbatim>\<open>r?\<close> and \<^verbatim>\<open>r{m,n}\<close> (greedy), built from the constructors.\<close>

definition rplus :: "regex \<Rightarrow> regex" where
  "rplus r = Seq r (Star r)"

fun rupto :: "regex \<Rightarrow> nat \<Rightarrow> regex" where
  "rupto r 0 = Eps"
| "rupto r (Suc n) = Alt (Seq r (rupto r n)) Eps"

fun rrange :: "regex \<Rightarrow> nat \<Rightarrow> nat \<Rightarrow> regex" where
  "rrange r 0 n = rupto r n"
| "rrange r (Suc m) n = Seq r (rrange r m (n - 1))"

definition backtick :: jschar where "backtick = 96"
definition hyphen :: jschar where "hyphen = 45"
definition newline :: jschar where "newline = 10"
definition space :: jschar where "space = 32"

text \<open>\<^verbatim>\<open>/```[\s\S]*?```/g\<close>\<close>
definition re_codeBlock :: regex where
  "re_codeBlock = seqs [lit backtick, lit backtick, lit backtick, Lazy (Atom (\<lambda>c. True)),
                        lit backtick, lit backtick, lit backtick]"

text \<open>\<^verbatim>\<open>/`[^`]*`/g\<close>\<close>
definition re_inlineCode :: regex where
  "re_inlineCode = seqs [lit backtick, Star (Atom (\<lambda>c. c \<noteq> backtick)), lit backtick]"

text \<open>\<^verbatim>\<open>/!\[.*?\]\(.*?\)/g\<close>\<close>
definition re_image :: regex where
  "re_image = seqs [lit 33, lit 91, Lazy (Atom isDot), lit 93, lit 40, Lazy (Atom isDot), lit 41]"

text \<open>\<^verbatim>\<open>/\[.*?\]\(.*?\)/g\<close>\<close>
definition re_link :: regex where
  "re_link = seqs [lit 91, Lazy (Atom isDot), lit 93, lit 40, Lazy (Atom isDot), lit 41]"

text \<open>\<^verbatim>\<open>/#{1,6}\s/g\<close>\<close>
definition re_heading :: regex where
  "re_heading = seqs [rrange (lit 35) 1 6, Atom isSpace]"

text \<open>\<^verbatim>\<open>/[*_]{1,2}(.*?)[*_]{1,2}/g\<close>\<close>
definition re_emphasis :: regex where
  "re_emphasis = seqs [rrange (Atom (\<lambda>c. c = 42 \<or> c = 95)) 1 2, Group (Lazy (Atom isDot)),
                       rrange (Atom (\<lambda>c. c = 42 \<or> c = 95)) 1 2]"

text \<open>\<^verbatim>\<open>/\n/g\<close>\<close>
definition re_newline :: regex where
  "re_newline = lit newline"

text \<open>\<^verbatim>\<open>/[\u4e00-\u9fa5]/g\<close>\<close>
definition re_chinese :: regex where
  "re_chinese = Atom isChinese"

text \<open>\<^verbatim>\<open>/\s+/\<close>\<close>
definition re_spaces :: regex where
  "re_spaces = rplus (Atom isSpace)"

text \<open>\<^verbatim>\<open>/[^a-z0-9\u4e00-\u9fa5]/g\<close>\<close>
definition isIdChar :: "jschar \<Rightarrow> bool" where
  "isIdChar c \<longleftrightarrow> (97 \<le> c \<and> c \<le> 122) \<or> (48 \<le> c \<and> c \<le> 57) \<or> (0x4e00 \<le> c \<and> c \<le> 0x9fa5)"

definition re_notIdChar :: regex where
  "re_notIdChar = Atom (\<lambda>c. \<not> isIdChar c)"

text \<open>\<^verbatim>\<open>/-+/g\<close>\<close>
definition re_hyphens :: regex where
  "re_hyphens = rplus (lit hyphen)"

text \<open>\<^verbatim>\<open>/^-|-$/g\<close>\<close>
definition re_edgeHyphen :: regex where
  "re_edgeHyphen = Alt (Seq Bol (lit hyphen)) (Seq (lit hyphen) Eol)"


section \<open>The library functions the script calls\<close>

text \<open>
  The script calls \<^verbatim>\<open>path.basename\<close>, \<^verbatim>\<open>path.join\<close>, \<^verbatim>\<open>toLowerCase\<close> and
  \<^verbatim>\<open>new Date(s).getTime()\<close> of its platform. They are parameters of the model,
  so that what is proved holds whatever they compute. \<open>getTime\<close> is \<open>None\<close> for a
  string that is not a date (the platform's \<^verbatim>\<open>NaN\<close>); the optional argument of
  \<open>basename\<close> is the extension to strip.
\<close>

record runtime =
  basename :: "jsstring \<Rightarrow> jsstring option \<Rightarrow> jsstring"
  join :: "jsstring \<Rightarrow> jsstring \<Rightarrow> jsstring"
  toLowerCase :: "jsstring \<Rightarrow> jsstring"
  getTime :: "jsstring \<Rightarrow> int option"

section \<open>The script\<close>

text \<open>
  The chain of replacements that both \<^verbatim>\<open>calculateReadingTime\<close> and
  \<^verbatim>\<open>parseMarkdownFile\<close> apply to the body.
\<close>

definition stripMarkdown :: "jsstring \<Rightarrow> jsstring" where
  "stripMarkdown content =
     replace re_newline (Text [space])
       (replace re_emphasis Group1
         (replace re_heading (Text [])
           (replace re_link (Text [])
             (replace re_image (Text [])
               (replace re_inlineCode (Text [])
                 (replace re_codeBlock (Text []) content))))))"

text \<open>
  The two quotients and their sum are computed exactly here. The script computes
  them in double precision. For counts below \<open>2 ^ 32\<close>, which no string of the
  platform reaches, the rounded sum is at most the exact sum when that is an
  integer, and lies strictly between the same two integers when it is not: the
  ceiling is the same.
\<close>

definition calculateReadingTime :: "jsstring \<Rightarrow> int" where
  "calculateReadingTime content =
     (let plainText = stripMarkdown content;
          chineseChars = length (case match re_chinese plainText of None \<Rightarrow> [] | Some m \<Rightarrow> m);
          englishWords = length (filter (\<lambda>word. length word > 0)
                                   (split re_spaces (replace re_chinese (Text []) plainText)));
          readingTime = \<lceil>(of_nat chineseChars :: rat) / 200 + of_nat englishWords / 250\<rceil>
      in max 1 readingTime)"

definition generatePostId :: "runtime \<Rightarrow> jsstring \<Rightarrow> jsstring" where
  "generatePostId rt filename =
     replace re_edgeHyphen (Text [])
       (replace re_hyphens (Text [hyphen])
         (replace re_notIdChar (Text [hyphen])
           (toLowerCase rt (basename rt filename (Some (js ''.md''))))))"

record BlogPost =
  post_id :: jsstring
  title :: jsstring
  date :: jsstring
  excerpt :: jsstring
  content :: jsstring
  tags :: "jsstring list"
  readingTime :: int
  featured :: bool

text \<open>The front matter; a key that the file does not give is \<open>None\<close>.\<close>

record PostFrontMatter =
  fm_title :: "jsstring option"
  fm_date :: "jsstring option"
  fm_excerpt :: "jsstring option"
  fm_tags :: "jsstring list option"
  fm_featured :: "bool option"

text \<open>What the script writes to the console, by kind.\<close>

datatype log =
    WarnMissingField jsstring
  | ErrorParsing jsstring
  | InfoStart
  | InfoFound nat
  | InfoProcessing jsstring
  | InfoParsed jsstring
  | InfoSummary nat nat nat
  | InfoNextSteps
  | ErrorSync

text \<open>\<^verbatim>\<open>!x\<close> for an optional string: not given, or empty.\<close>

fun falsy :: "jsstring option \<Rightarrow> bool" where
  "falsy None = True"
| "falsy (Some s) = (s = [])"

text \<open>
  \<^verbatim>\<open>parseMarkdownFile\<close>. \<open>loaded\<close> is what reading the file and splitting off its
  front matter give: \<open>None\<close> when one of the two throws. The result is the console
  output and the post, \<open>None\<close> for \<^verbatim>\<open>null\<close>. Where the post is built the title and
  the date are given, so the second branch of their \<open>case\<close> is never taken.
\<close>

definition parseMarkdownFile ::
  "runtime \<Rightarrow> jsstring \<Rightarrow> (PostFrontMatter \<times> jsstring) option \<Rightarrow> log list \<times> BlogPost option" where
  "parseMarkdownFile rt filePath loaded =
     (case loaded of
        None \<Rightarrow> ([ErrorParsing filePath], None)
      | Some (frontMatter, content') \<Rightarrow>
          if falsy (fm_title frontMatter) \<or> falsy (fm_date frontMatter)
          then ([WarnMissingField filePath], None)
          else
            let id' = generatePostId rt (basename rt filePath None);
                readingTime' = calculateReadingTime content';
                excerpt0 = (case fm_excerpt frontMatter of None \<Rightarrow> [] | Some e \<Rightarrow> e);
                excerpt' =
                  (if excerpt0 = []
                   then (let plainText = trim (stripMarkdown content')
                         in substring0 150 plainText @ (if length plainText > 150 then js ''...'' else []))
                   else excerpt0)
            in ([], Some \<lparr>post_id = id',
                          title = (case fm_title frontMatter of Some t \<Rightarrow> t | None \<Rightarrow> []),
                          date = (case fm_date frontMatter of Some d \<Rightarrow> d | None \<Rightarrow> []),
                          excerpt = excerpt',
                          content = content',
                          tags = (case fm_tags frontMatter of None \<Rightarrow> [] | Some ts \<Rightarrow> ts),
                          readingTime = readingTime',
                          featured = (case fm_featured frontMatter of None \<Rightarrow> False | Some f \<Rightarrow> f)\<rparr>))"


section \<open>The generated data file\<close>

text \<open>
  \<^verbatim>\<open>generateBlogDataContent\<close> writes the posts as the constant \<^verbatim>\<open>blogPosts\<close>,
  followed by the text of five functions over it. The functions are modelled
  with \<open>blogPosts\<close> as an argument.
\<close>

definition getPostById :: "BlogPost list \<Rightarrow> jsstring \<Rightarrow> BlogPost option" where
  "getPostById blogPosts i = find (\<lambda>post. post_id post = i) blogPosts"

definition getFeaturedPosts :: "BlogPost list \<Rightarrow> BlogPost list" where
  "getFeaturedPosts blogPosts = filter (\<lambda>post. featured post) blogPosts"

definition getPostsByTag :: "BlogPost list \<Rightarrow> jsstring \<Rightarrow> BlogPost list" where
  "getPostsByTag blogPosts tag = filter (\<lambda>post. tag \<in> set (tags post)) blogPosts"

text \<open>
  A \<^verbatim>\<open>Set\<close> keeps its elements in the order of their first insertion, which is
  the order \<^verbatim>\<open>Array.from\<close> reads them in.
\<close>

definition set_add :: "'a \<Rightarrow> 'a list \<Rightarrow> 'a list" where
  "set_add x xs = (if x \<in> set xs then xs else xs @ [x])"

text \<open>
  \<^verbatim>\<open>sort()\<close> without comparator orders strings by their code units, a shorter
  string before its extensions: the order of lists of code units.
\<close>

definition sort_default :: "jsstring list \<Rightarrow> jsstring list" where
  "sort_default xs = sort xs"

definition getAllTags :: "BlogPost list \<Rightarrow> jsstring list" where
  "getAllTags blogPosts =
     sort_default (fold (\<lambda>post ts. fold set_add (tags post) ts) blogPosts [])"

text \<open>
  \<^verbatim>\<open>sort(cmp)\<close> is stable. With a comparator that is a consistent order there is
  one stable result, which insertion from the right computes; a comparator value
  that is not a number counts as 0.
\<close>

fun insert_by :: "('a \<Rightarrow> 'a \<Rightarrow> int) \<Rightarrow> 'a \<Rightarrow> 'a list \<Rightarrow> 'a list" where
  "insert_by cmp x [] = [x]"
| "insert_by cmp x (y # ys) = (if cmp x y \<le> 0 then x # y # ys else y # insert_by cmp x ys)"

definition sort_by :: "('a \<Rightarrow> 'a \<Rightarrow> int) \<Rightarrow> 'a list \<Rightarrow> 'a list" where
  "sort_by cmp xs = foldr (insert_by cmp) xs []"

text \<open>\<^verbatim>\<open>(a, b) => new Date(b.date).getTime() - new Date(a.date).getTime()\<close>\<close>

definition compareByDate :: "runtime \<Rightarrow> BlogPost \<Rightarrow> BlogPost \<Rightarrow> int" where
  "compareByDate rt a b =
     (case (getTime rt (date b), getTime rt (date a)) of
        (Some tb, Some ta) \<Rightarrow> tb - ta
      | _ \<Rightarrow> 0)"

text \<open>
  Arrays are objects: \<^verbatim>\<open>sort\<close> changes the array it is called on, and
  \<^verbatim>\<open>[...posts]\<close> makes a new one. The store holds the arrays by address; the
  addresses in use are those below its length, and a reference to an array is
  one of them.
\<close>

type_synonym store = "BlogPost list list"

definition spread :: "store \<Rightarrow> nat \<Rightarrow> nat \<times> store" where
  "spread h a = (length h, h @ [h ! a])"

definition array_sort :: "runtime \<Rightarrow> store \<Rightarrow> nat \<Rightarrow> store" where
  "array_sort rt h a = h[a := sort_by (compareByDate rt) (h ! a)]"

definition sortPostsByDate :: "runtime \<Rightarrow> store \<Rightarrow> nat \<Rightarrow> nat \<times> store" where
  "sortPostsByDate rt h posts = (let (copy, h') = spread h posts in (copy, array_sort rt h' copy))"

section \<open>The run of the script\<close>

text \<open>
  What a run finds outside the script: the working directory, the files found by
  \<^verbatim>\<open>glob\<close> (\<open>None\<close> when it throws), what reading and parsing each path give, and
  whether the data file can be written.
\<close>

record world =
  cwd :: jsstring
  globResult :: "jsstring list option"
  readMatter :: "jsstring \<Rightarrow> (PostFrontMatter \<times> jsstring) option"
  writeOk :: bool

text \<open>The loop over the files: the console output and the posts pushed.\<close>

fun parseFiles ::
  "runtime \<Rightarrow> (jsstring \<Rightarrow> (PostFrontMatter \<times> jsstring) option) \<Rightarrow> jsstring \<Rightarrow> jsstring list
     \<Rightarrow> log list \<times> BlogPost list" where
  "parseFiles rt rd dir [] = ([], [])"
| "parseFiles rt rd dir (file # files) =
     (let filePath = join rt dir file;
          (out, post) = parseMarkdownFile rt filePath (rd filePath);
          (out', posts) = parseFiles rt rd dir files
      in case post of
           None \<Rightarrow> (InfoProcessing file # out @ out', posts)
         | Some p \<Rightarrow> (InfoProcessing file # out @ InfoParsed (title p) # out', p # posts))"

text \<open>
  \<^verbatim>\<open>syncBlog\<close>: the console output, the exit status of the process, and the posts
  written to the data file (\<open>None\<close> when nothing is written).
\<close>

definition syncBlog :: "runtime \<Rightarrow> world \<Rightarrow> log list \<times> int \<times> BlogPost list option" where
  "syncBlog rt w =
     (case globResult w of
        None \<Rightarrow> ([InfoStart, ErrorSync], 1, None)
      | Some markdownFiles \<Rightarrow>
          let blogPostsDir = join rt (cwd w) (js ''blog-posts'');
              (out, posts) = parseFiles rt (readMatter w) blogPostsDir markdownFiles;
              sorted = sort_by (compareByDate rt) posts
          in if writeOk w
             then (InfoStart # InfoFound (length markdownFiles) # out @
                    [InfoSummary (length sorted) (length (filter featured sorted))
                       (length (remdups (concat (map tags sorted))))] @
                    (if length sorted > 0 then [InfoNextSteps] else []),
                   0, Some sorted)
             else (InfoStart # InfoFound (length markdownFiles) # out @ [ErrorSync], 1, None))"

section \<open>An instance of the library functions\<close>

text \<open>
  A plain instance, to run the model on concrete inputs: paths with \<^verbatim>\<open>/\<close> as
  separator, lower case for the letters A to Z only, and dates of the form
  \<^verbatim>\<open>YYYY-MM-DD\<close> read as midnight UTC, in milliseconds since 1970.
\<close>

definition basename0 :: "jsstring \<Rightarrow> jsstring option \<Rightarrow> jsstring" where
  "basename0 p ext =
     (let comp = rev (takeWhile (\<lambda>c. c \<noteq> 47) (rev p))
      in case ext of
           None \<Rightarrow> comp
         | Some e \<Rightarrow>
             if length e < length comp \<and> drop (length comp - length e) comp = e
             then take (length comp - length e) comp else comp)"

definition join0 :: "jsstring \<Rightarrow> jsstring \<Rightarrow> jsstring" where
  "join0 a b = a @ [47] @ b"

definition toLowerCase0 :: "jsstring \<Rightarrow> jsstring" where
  "toLowerCase0 s = map (\<lambda>c. if 65 \<le> c \<and> c \<le> 90 then c + 32 else c) s"

definition digit :: "jschar \<Rightarrow> int option" where
  "digit c = (if 48 \<le> c \<and> c \<le> 57 then Some (int (unat c) - 48) else None)"

definition days_from_civil :: "int \<Rightarrow> int \<Rightarrow> int \<Rightarrow> int" where
  "days_from_civil y m d =
     (let y' = (if m \<le> 2 then y - 1 else y);
          era = y' div 400;
          yoe = y' - era * 400;
          doy = (153 * (if m > 2 then m - 3 else m + 9) + 2) div 5 + d - 1;
          doe = yoe * 365 + yoe div 4 - yoe div 100 + doy
      in era * 146097 + doe - 719468)"

definition days_in_month :: "int \<Rightarrow> int \<Rightarrow> int" where
  "days_in_month y m =
     (if m = 2 then (if y mod 4 = 0 \<and> (y mod 100 \<noteq> 0 \<or> y mod 400 = 0) then 29 else 28)
      else if m = 4 \<or> m = 6 \<or> m = 9 \<or> m = 11 then 30 else 31)"

definition getTime0 :: "jsstring \<Rightarrow> int option" where
  "getTime0 s =
     (case map digit s of
        [Some y1, Some y2, Some y3, Some y4, None, Some m1, Some m2, None, Some d1, Some d2] \<Rightarrow>
          (let y = 1000 * y1 + 100 * y2 + 10 * y3 + y4; m = 10 * m1 + m2; d = 10 * d1 + d2
           in if s ! 4 = hyphen \<and> s ! 7 = hyphen \<and> 1 \<le> m \<and> m \<le> 12 \<and> 1 \<le> d \<and> d \<le> days_in_month y m
              then Some (days_from_civil y m d * 86400000) else None)
      | _ \<Rightarrow> None)"

definition runtime0 :: runtime where
  "runtime0 = \<lparr>basename = basename0, join = join0, toLowerCase = toLowerCase0, getTime = getTime0\<rparr>"


section \<open>The excerpt that the script generates\<close>

text \<open>
  The first 150 code units of the trimmed plain text of the body, followed by
  three dots if the trimmed plain text is longer than that.
\<close>

definition autoExcerpt :: "jsstring \<Rightarrow> jsstring" where
  "autoExcerpt body =
     (let t = trim (stripMarkdown body) in if length t \<le> 150 then t else take 150 t @ js ''...'')"


section \<open>Inputs for running the model\<close>

definition fm_run :: PostFrontMatter where
  "fm_run = \<lparr>fm_title = Some (js ''Run''), fm_date = Some (js ''2024-01-15''),
              fm_excerpt = None, fm_tags = None, fm_featured = None\<rparr>"

definition post_run :: BlogPost where
  "post_run = \<lparr>post_id = js ''a'', title = js ''Run'', date = js ''2024-01-15'',
       excerpt = js ''hi'', content = js ''hi'', tags = [], readingTime = 1, featured = False\<rparr>"

definition world_b :: world where
  "world_b = \<lparr>cwd = js ''/site'', globResult = Some [js ''b.md''],
       readMatter = (\<lambda>p. if p = js ''/site/blog-posts/b.md''
                          then Some (fm_run\<lparr>fm_date := None\<rparr>, js ''hi'') else None),
       writeOk = True\<rparr>"


section \<open>Posts in the order of their dates\<close>

text \<open>
  A post is dated when its date is one for the platform. A sequence of posts is
  sorted by date, newest first, when all its posts are dated and no post is
  earlier than a post behind it.
\<close>

definition dated :: "runtime \<Rightarrow> BlogPost \<Rightarrow> bool" where
  "dated rt p \<longleftrightarrow> getTime rt (date p) \<noteq> None"

definition not_earlier :: "runtime \<Rightarrow> BlogPost \<Rightarrow> BlogPost \<Rightarrow> bool" where
  "not_earlier rt a b \<longleftrightarrow>
     (case (getTime rt (date a), getTime rt (date b)) of
        (Some ta, Some tb) \<Rightarrow> tb \<le> ta
      | _ \<Rightarrow> False)"

definition sorted_by_date_desc :: "runtime \<Rightarrow> BlogPost list \<Rightarrow> bool" where
  "sorted_by_date_desc rt xs \<longleftrightarrow> list_all (dated rt) xs \<and> sorted_wrt (not_earlier rt) xs"

definition post_jan :: BlogPost where
  "post_jan = post_run\<lparr>post_id := js ''jan'', date := js ''2024-01-01'', tags := [js ''run'', js ''5k'']\<rparr>"

definition post_feb :: BlogPost where
  "post_feb = post_run\<lparr>post_id := js ''feb'', date := js ''2024-02-01'', tags := [js ''run'', js ''10k'']\<rparr>"

text \<open>A post whose date is not a date: the front matter said \<^verbatim>\<open>date: TBD\<close>.\<close>

definition post_tbd :: BlogPost where
  "post_tbd = post_run\<lparr>post_id := js ''tbd'', date := js ''TBD''\<rparr>"

section \<open>Notions for the statements\<close>

text \<open>No two occurrences of \<open>h\<close> next to each other.\<close>

fun no_double :: "'a \<Rightarrow> 'a list \<Rightarrow> bool" where
  "no_double h (x # y # zs) \<longleftrightarrow> \<not> (x = h \<and> y = h) \<and> no_double h (y # zs)"
| "no_double h [x] \<longleftrightarrow> True"
| "no_double h [] \<longleftrightarrow> True"

text \<open>
  The words of a text: the text is split at every white-space code unit, and the
  pieces that are not empty are its words.
\<close>

fun pieces :: "jsstring \<Rightarrow> jsstring list" where
  "pieces [] = [ [] ]"
| "pieces (c # cs) =
     (if isSpace c then [] # pieces cs
      else (case pieces cs of [] \<Rightarrow> [ [c] ] | t # ts \<Rightarrow> (c # t) # ts))"

definition tokens :: "jsstring \<Rightarrow> jsstring list" where
  "tokens s = filter (\<lambda>t. t \<noteq> []) (pieces s)"

definition wordCount :: "jsstring \<Rightarrow> nat" where
  "wordCount s = length (tokens s)"

definition cjkCount :: "jsstring \<Rightarrow> nat" where
  "cjkCount s = length (filter isChinese s)"

text \<open>
  The code units with which a pattern of \<open>stripMarkdown\<close> other than the one for
  line breaks can start to match: the backtick, the opening bracket (an image
  needs one after its exclamation mark), the hash, the asterisk and the underscore.
\<close>

definition isMarkup :: "jschar \<Rightarrow> bool" where
  "isMarkup c \<longleftrightarrow> c = 96 \<or> c = 91 \<or> c = 35 \<or> c = 42 \<or> c = 95"

definition markup_free :: "jsstring \<Rightarrow> bool" where
  "markup_free s \<longleftrightarrow> list_all (\<lambda>c. \<not> isMarkup c) s"

definition cjk_only :: "jsstring \<Rightarrow> bool" where
  "cjk_only s \<longleftrightarrow> list_all isChinese s"

definition word_only :: "jsstring \<Rightarrow> bool" where
  "word_only s \<longleftrightarrow> list_all (\<lambda>c. \<not> isChinese c) s"

text \<open>What replacing \<^verbatim>\<open>/\n/g\<close> by a space does to one code unit.\<close>

definition nl2sp :: "jschar \<Rightarrow> jschar" where
  "nl2sp c = (if c = newline then space else c)"

text \<open>A line of 250 words.\<close>

definition line250 :: jsstring where
  "line250 = concat (replicate 250 (js ''w '')) @ [newline]"

section \<open>Properties of the front matter handling\<close>

declare replace_from.simps [simp del] matches_from.simps [simp del] split_from.simps [simp del]

lemma js_eq_Nil [simp]: "js s = [] \<longleftrightarrow> s = []"
  by (simp add: js_def)

lemma parse_present:
  assumes "fm_title fm = Some t" "t \<noteq> []" "fm_date fm = Some d" "d \<noteq> []"
  shows "parseMarkdownFile rt p (Some (fm, c)) =
     ([], Some \<lparr>post_id = generatePostId rt (basename rt p None), title = t, date = d,
         excerpt = (case fm_excerpt fm of None \<Rightarrow> autoExcerpt c
                    | Some e \<Rightarrow> if e = [] then autoExcerpt c else e),
         content = c, tags = (case fm_tags fm of None \<Rightarrow> [] | Some ts \<Rightarrow> ts),
         readingTime = calculateReadingTime c,
         featured = (case fm_featured fm of None \<Rightarrow> False | Some f \<Rightarrow> f)\<rparr>)"
  using assms
  by (simp add: parseMarkdownFile_def autoExcerpt_def Let_def substring0_def split: option.splits)

lemma parse_skipped:
  assumes "falsy (fm_title fm) \<or> falsy (fm_date fm)"
  shows "parseMarkdownFile rt p (Some (fm, c)) = ([WarnMissingField p], None)"
  using assms by (simp add: parseMarkdownFile_def)

lemma parse_excerpt:
  assumes "parseMarkdownFile rt p (Some (fm, c)) = (out, Some post)"
  shows "excerpt post = (case fm_excerpt fm of None \<Rightarrow> autoExcerpt c
                         | Some e \<Rightarrow> if e = [] then autoExcerpt c else e)"
proof -
  from assms have "\<not> falsy (fm_title fm)" "\<not> falsy (fm_date fm)"
    by (auto simp add: parseMarkdownFile_def split: if_splits)
  then obtain t d where "fm_title fm = Some t" "t \<noteq> []" "fm_date fm = Some d" "d \<noteq> []"
    by (cases "fm_title fm"; cases "fm_date fm") auto
  from parse_present [OF this, of rt p c] assms show ?thesis by auto
qed

lemma parseFiles_append:
  "parseFiles rt rd dir (xs @ ys) =
     (fst (parseFiles rt rd dir xs) @ fst (parseFiles rt rd dir ys),
      snd (parseFiles rt rd dir xs) @ snd (parseFiles rt rd dir ys))"
  by (induction xs) (auto simp add: Let_def split: prod.splits option.splits)

lemma parseFiles_skip:
  assumes "parseMarkdownFile rt (join rt dir f) (rd (join rt dir f)) = (out, None)"
  shows "snd (parseFiles rt rd dir (pre @ f # post)) = snd (parseFiles rt rd dir (pre @ post))"
    and "set out \<subseteq> set (fst (parseFiles rt rd dir (pre @ f # post)))"
  using assms by (auto simp add: parseFiles_append [of _ _ _ pre] Let_def split: prod.splits)

lemma eval_id_a: "generatePostId runtime0 (basename runtime0 (js ''a.md'') None) = js ''a''"
  by code_simp

lemma eval_rt_hi: "calculateReadingTime (js ''hi'') = 1"
  by code_simp

lemma eval_excerpt_hi: "autoExcerpt (js ''hi'') = js ''hi''"
  by code_simp

lemma parse_run:
  "parseMarkdownFile runtime0 (js ''a.md'') (Some (fm_run\<lparr>fm_excerpt := x\<rparr>, js ''hi'')) =
    ([], Some (post_run\<lparr>excerpt := (case x of None \<Rightarrow> js ''hi'' | Some e \<Rightarrow> if e = [] then js ''hi'' else e)\<rparr>))"
  by (simp add: parse_present [where t = "js ''Run''" and d = "js ''2024-01-15''"] fm_run_def
        post_run_def eval_id_a eval_rt_hi eval_excerpt_hi split: option.splits)

text \<open>
  Claim C3, as amended. In every post that \<open>parseMarkdownFile\<close> returns: an excerpt
  given in the front matter that is not empty is the excerpt of the post, unchanged.
  When the front matter gives none, or gives the empty string, the excerpt is the
  trimmed plain text of the body itself if that has at most 150 code units, and
  else its first 150 code units followed by three dots.
\<close>

theorem excerpt_of_record:
  assumes "parseMarkdownFile rt p (Some (fm, c)) = (out, Some post)"
  shows "(\<forall>e. fm_excerpt fm = Some e \<and> e \<noteq> [] \<longrightarrow> excerpt post = e) \<and>
         (fm_excerpt fm = None \<or> fm_excerpt fm = Some [] \<longrightarrow>
            (let t = trim (stripMarkdown c)
             in (length t \<le> 150 \<longrightarrow> excerpt post = t) \<and>
                (150 < length t \<longrightarrow> excerpt post = take 150 t @ js ''...'')))"
  using parse_excerpt [OF assms] by (auto simp add: autoExcerpt_def Let_def)

theorem excerpt_of_record_witness:
  "parseMarkdownFile runtime0 (js ''a.md'') (Some (fm_run, js ''hi'')) = ([], Some post_run) \<and>
   fm_excerpt fm_run = None \<and> trim (stripMarkdown (js ''hi'')) = js ''hi'' \<and>
   excerpt post_run = js ''hi''"
proof -
  have h: "parseMarkdownFile runtime0 (js ''a.md'') (Some (fm_run, js ''hi'')) = ([], Some post_run)"
    using parse_run [of None] by (simp add: fm_run_def post_run_def)
  have t: "trim (stripMarkdown (js ''hi'')) = js ''hi''"
    by code_simp
  from excerpt_of_record [OF h] h t show ?thesis
    by (simp add: fm_run_def post_run_def)
qed

text \<open>
  Claim C3 as it is stated fails for an excerpt given as the empty string: the post
  of a body \<^verbatim>\<open>hi\<close> then has the excerpt \<^verbatim>\<open>hi\<close>, not the empty string given.
\<close>

theorem explicit_empty_excerpt_counterexample:
  "fm_excerpt (fm_run\<lparr>fm_excerpt := Some []\<rparr>) = Some [] \<and>
   map_option excerpt (snd (parseMarkdownFile runtime0 (js ''a.md'')
       (Some (fm_run\<lparr>fm_excerpt := Some []\<rparr>, js ''hi'')))) = Some (js ''hi'') \<and>
   js ''hi'' \<noteq> []"
  by (simp add: parse_run post_run_def)

text \<open>
  Claim C9. An excerpt given as the empty string is handled as an excerpt that is
  not given: the result is the same, and the excerpt of the post is the generated
  one.
\<close>

theorem empty_excerpt_is_generated:
  "parseMarkdownFile rt p (Some (fm\<lparr>fm_excerpt := Some []\<rparr>, c)) =
     parseMarkdownFile rt p (Some (fm\<lparr>fm_excerpt := None\<rparr>, c)) \<and>
   (\<forall>out post. parseMarkdownFile rt p (Some (fm\<lparr>fm_excerpt := Some []\<rparr>, c)) = (out, Some post)
      \<longrightarrow> excerpt post = autoExcerpt c)"
proof -
  have "parseMarkdownFile rt p (Some (fm\<lparr>fm_excerpt := Some []\<rparr>, c)) =
     parseMarkdownFile rt p (Some (fm\<lparr>fm_excerpt := None\<rparr>, c))"
    by (simp add: parseMarkdownFile_def Let_def)
  moreover have "excerpt post = autoExcerpt c"
    if "parseMarkdownFile rt p (Some (fm\<lparr>fm_excerpt := Some []\<rparr>, c)) = (out, Some post)" for out post
    using parse_excerpt [OF that] by simp
  ultimately show ?thesis by blast
qed

theorem empty_excerpt_is_generated_witness:
  "parseMarkdownFile runtime0 (js ''a.md'') (Some (fm_run\<lparr>fm_excerpt := Some []\<rparr>, js ''hi'')) =
   parseMarkdownFile runtime0 (js ''a.md'') (Some (fm_run\<lparr>fm_excerpt := None\<rparr>, js ''hi'')) \<and>
   parseMarkdownFile runtime0 (js ''a.md'') (Some (fm_run\<lparr>fm_excerpt := Some []\<rparr>, js ''hi'')) =
     ([], Some post_run) \<and> excerpt post_run = autoExcerpt (js ''hi'')"
  using empty_excerpt_is_generated [of runtime0 "js ''a.md''" fm_run "js ''hi''"]
  by (simp add: parse_run post_run_def)

text \<open>
  Claim C10. A title or a date given as the empty string is handled as a missing
  one: no post is returned and the warning is written, as it is when the key is
  absent.
\<close>

theorem empty_title_or_date_is_skipped:
  assumes "fm_title fm = Some [] \<or> fm_date fm = Some []"
  shows "parseMarkdownFile rt p (Some (fm, c)) = ([WarnMissingField p], None) \<and>
         parseMarkdownFile rt p (Some (fm\<lparr>fm_title := None\<rparr>, c)) = ([WarnMissingField p], None) \<and>
         parseMarkdownFile rt p (Some (fm\<lparr>fm_date := None\<rparr>, c)) = ([WarnMissingField p], None)"
  using assms by (auto simp add: parse_skipped)

theorem empty_title_or_date_is_skipped_witness:
  "fm_title (fm_run\<lparr>fm_title := Some []\<rparr>) = Some [] \<and>
   parseMarkdownFile runtime0 (js ''a.md'') (Some (fm_run\<lparr>fm_title := Some []\<rparr>, js ''hi'')) =
     ([WarnMissingField (js ''a.md'')], None)"
  using empty_title_or_date_is_skipped [of "fm_run\<lparr>fm_title := Some []\<rparr>" runtime0 "js ''a.md''" "js ''hi''"]
  by simp

text \<open>
  Claim C4. For a file whose front matter has no title or no date,
  \<open>parseMarkdownFile\<close> writes the warning and returns no post. In a run, such a file
  among the files found adds no post: the exit status and the posts written are
  those of the run without the file, the exit status is 0 when the data file can
  be written, and the warning for the file is in the output.
\<close>

theorem missing_title_or_date_is_skipped:
  assumes "fm_title fm = None \<or> fm_date fm = None"
  shows "parseMarkdownFile rt p (Some (fm, c)) = ([WarnMissingField p], None) \<and>
         (\<forall>(w::world) pre f post.
            globResult w = Some (pre @ f # post) \<and>
            readMatter w (join rt (join rt (cwd w) (js ''blog-posts'')) f) = Some (fm, c) \<longrightarrow>
              snd (syncBlog rt w) = snd (syncBlog rt (w\<lparr>globResult := Some (pre @ post)\<rparr>)) \<and>
              (writeOk w \<longrightarrow> fst (snd (syncBlog rt w)) = 0) \<and>
              WarnMissingField (join rt (join rt (cwd w) (js ''blog-posts'')) f)
                \<in> set (fst (syncBlog rt w)))"
proof (intro conjI allI impI)
  show skip: "parseMarkdownFile rt p (Some (fm, c)) = ([WarnMissingField p], None)" for p
    using assms by (auto simp add: parse_skipped)
  fix w :: world and pre f post
  let ?dir = "join rt (cwd w) (js ''blog-posts'')"
  assume "globResult w = Some (pre @ f # post) \<and> readMatter w (join rt ?dir f) = Some (fm, c)"
  then have g: "globResult w = Some (pre @ f # post)"
    and r: "readMatter w (join rt ?dir f) = Some (fm, c)" by simp_all
  have p: "parseMarkdownFile rt (join rt ?dir f) (readMatter w (join rt ?dir f)) =
             ([WarnMissingField (join rt ?dir f)], None)"
    using skip r by simp
  note s = parseFiles_skip [where rd = "readMatter w" and dir = ?dir and f = f and pre = pre
      and post = post, OF p]
  show "snd (syncBlog rt w) = snd (syncBlog rt (w\<lparr>globResult := Some (pre @ post)\<rparr>))"
    using s g by (auto simp add: syncBlog_def Let_def split: prod.splits)
  show "writeOk w \<Longrightarrow> fst (snd (syncBlog rt w)) = 0"
    using g by (auto simp add: syncBlog_def Let_def split: prod.splits)
  show "WarnMissingField (join rt ?dir f) \<in> set (fst (syncBlog rt w))"
    using s g by (auto simp add: syncBlog_def Let_def split: prod.splits)
qed

theorem missing_title_or_date_is_skipped_witness:
  "fm_date (fm_run\<lparr>fm_date := None\<rparr>) = None \<and>
   globResult world_b = Some ([] @ js ''b.md'' # []) \<and>
   readMatter world_b (join runtime0 (join runtime0 (cwd world_b) (js ''blog-posts'')) (js ''b.md''))
     = Some (fm_run\<lparr>fm_date := None\<rparr>, js ''hi'') \<and>
   snd (syncBlog runtime0 world_b) = (0, Some []) \<and>
   WarnMissingField (js ''/site/blog-posts/b.md'') \<in> set (fst (syncBlog runtime0 world_b))"
proof -
  have m: "fm_title (fm_run\<lparr>fm_date := None\<rparr>) = None \<or> fm_date (fm_run\<lparr>fm_date := None\<rparr>) = None"
    by simp
  have g: "globResult world_b = Some ([] @ js ''b.md'' # [])"
    by (simp add: world_b_def)
  have p: "join runtime0 (join runtime0 (cwd world_b) (js ''blog-posts'')) (js ''b.md'') = js ''/site/blog-posts/b.md''"
    by (simp add: world_b_def runtime0_def join0_def js_def)
  have r: "readMatter world_b (join runtime0 (join runtime0 (cwd world_b) (js ''blog-posts'')) (js ''b.md''))
     = Some (fm_run\<lparr>fm_date := None\<rparr>, js ''hi'')"
    unfolding p by (simp add: world_b_def)
  have e: "snd (syncBlog runtime0 (world_b\<lparr>globResult := Some ([] @ [])\<rparr>)) = (0, Some [])"
    by (simp add: syncBlog_def world_b_def sort_by_def)
  let ?path = "join runtime0 (join runtime0 (cwd world_b) (js ''blog-posts'')) (js ''b.md'')"
  from missing_title_or_date_is_skipped [OF m, of runtime0 "js ''b.md''" "js ''hi''"]
  have "globResult world_b = Some ([] @ js ''b.md'' # []) \<and>
        readMatter world_b ?path = Some (fm_run\<lparr>fm_date := None\<rparr>, js ''hi'') \<longrightarrow>
          snd (syncBlog runtime0 world_b) = snd (syncBlog runtime0 (world_b\<lparr>globResult := Some ([] @ [])\<rparr>)) \<and>
          (writeOk world_b \<longrightarrow> fst (snd (syncBlog runtime0 world_b)) = 0) \<and>
          WarnMissingField ?path \<in> set (fst (syncBlog runtime0 world_b))"
    by blast
  with g r have "snd (syncBlog runtime0 world_b) = snd (syncBlog runtime0 (world_b\<lparr>globResult := Some ([] @ [])\<rparr>))"
    and "WarnMissingField ?path \<in> set (fst (syncBlog runtime0 world_b))"
    by blast+
  with e p g r show ?thesis by simp
qed


section \<open>Properties of the functions of the data file\<close>

lemma set_fold_set_add: "set (fold set_add xs acc) = set acc \<union> set xs"
  by (induction xs arbitrary: acc) (auto simp add: set_add_def)

lemma distinct_fold_set_add: "distinct acc \<Longrightarrow> distinct (fold set_add xs acc)"
  by (induction xs arbitrary: acc) (auto simp add: set_add_def)

lemma set_collect_tags:
  "set (fold (\<lambda>post ts. fold set_add (tags post) ts) ps acc) = set acc \<union> (\<Union>post\<in>set ps. set (tags post))"
  by (induction ps arbitrary: acc) (auto simp add: set_fold_set_add)

lemma distinct_collect_tags:
  "distinct acc \<Longrightarrow> distinct (fold (\<lambda>post ts. fold set_add (tags post) ts) ps acc)"
  by (induction ps arbitrary: acc) (auto simp add: distinct_fold_set_add)

text \<open>
  Claim C5. \<open>getAllTags\<close> returns the tags that occur in the tag sequences of the
  posts, each once, in ascending lexicographic order.
\<close>

theorem getAllTags_set_distinct_sorted:
  "set (getAllTags blogPosts) = (\<Union>post\<in>set blogPosts. set (tags post)) \<and>
   distinct (getAllTags blogPosts) \<and> sorted (getAllTags blogPosts)"
  by (simp add: getAllTags_def sort_default_def set_collect_tags distinct_collect_tags)

theorem getAllTags_set_distinct_sorted_witness:
  "getAllTags [post_feb, post_jan] = [js ''10k'', js ''5k'', js ''run''] \<and>
   set (getAllTags [post_feb, post_jan]) = (\<Union>post\<in>set [post_feb, post_jan]. set (tags post)) \<and>
   distinct (getAllTags [post_feb, post_jan]) \<and> sorted (getAllTags [post_feb, post_jan])"
proof -
  have "getAllTags [post_feb, post_jan] = [js ''10k'', js ''5k'', js ''run'']"
    by (simp add: getAllTags_def sort_default_def post_feb_def post_jan_def post_run_def set_add_def js_def)
  with getAllTags_set_distinct_sorted [of "[post_feb, post_jan]"] show ?thesis by simp
qed

lemma compareByDate_le_0:
  "dated rt a \<Longrightarrow> dated rt b \<Longrightarrow> compareByDate rt a b \<le> 0 \<longleftrightarrow> not_earlier rt a b"
  by (auto simp add: dated_def compareByDate_def not_earlier_def)

lemma not_earlier_trans:
  "not_earlier rt a b \<Longrightarrow> not_earlier rt b c \<Longrightarrow> not_earlier rt a c"
  by (auto simp add: not_earlier_def split: option.splits)

lemma not_earlier_total:
  "dated rt a \<Longrightarrow> dated rt b \<Longrightarrow> \<not> not_earlier rt a b \<Longrightarrow> not_earlier rt b a"
  by (auto simp add: dated_def not_earlier_def)

lemma not_earlier_compare: "not_earlier rt a b \<Longrightarrow> compareByDate rt a b \<le> 0"
  by (auto simp add: compareByDate_def not_earlier_def split: option.splits)

lemma set_insert_by: "set (insert_by cmp x ys) = insert x (set ys)"
  by (induction ys) auto

lemma mset_insert_by: "mset (insert_by cmp x ys) = add_mset x (mset ys)"
  by (induction ys) auto

lemma mset_sort_by: "mset (sort_by cmp xs) = mset xs"
  by (induction xs) (auto simp add: sort_by_def mset_insert_by)

lemma sorted_insert_by:
  assumes "dated rt x" "list_all (dated rt) ys" "sorted_wrt (not_earlier rt) ys"
  shows "sorted_wrt (not_earlier rt) (insert_by (compareByDate rt) x ys)"
  using assms
proof (induction ys)
  case Nil
  then show ?case by simp
next
  case (Cons y ys)
  show ?case
  proof (cases "compareByDate rt x y \<le> 0")
    case True
    with Cons.prems have "not_earlier rt x y"
      by (simp add: compareByDate_le_0)
    with Cons.prems have "\<forall>z\<in>set (y # ys). not_earlier rt x z"
      by (auto intro: not_earlier_trans)
    with True Cons.prems show ?thesis by simp
  next
    case False
    with Cons.prems have "not_earlier rt y x"
      by (auto simp add: compareByDate_le_0 intro: not_earlier_total)
    with False Cons show ?thesis
      by (auto simp add: set_insert_by)
  qed
qed

lemma sorted_sort_by:
  "list_all (dated rt) xs \<Longrightarrow> sorted_by_date_desc rt (sort_by (compareByDate rt) xs)"
proof (induction xs)
  case Nil
  then show ?case by (simp add: sort_by_def sorted_by_date_desc_def)
next
  case (Cons x xs)
  then have "sorted_by_date_desc rt (sort_by (compareByDate rt) xs)" and "dated rt x" by simp_all
  then show ?case
    using sorted_insert_by [of rt x "sort_by (compareByDate rt) xs"]
    by (simp add: sort_by_def sorted_by_date_desc_def list_all_iff set_insert_by)
qed

lemma sort_by_sorted_id:
  "sorted_wrt (not_earlier rt) xs \<Longrightarrow> sort_by (compareByDate rt) xs = xs"
proof (induction xs)
  case Nil
  then show ?case by (simp add: sort_by_def)
next
  case (Cons x xs)
  then have "sort_by (compareByDate rt) (x # xs) = insert_by (compareByDate rt) x xs"
    by (simp add: sort_by_def)
  also have "\<dots> = x # xs"
    using Cons.prems by (cases xs) (auto simp add: not_earlier_compare)
  finally show ?case .
qed

lemma nth_sortPostsByDate:
  assumes "posts < length h"
  shows "sortPostsByDate rt h posts =
           (length h, h @ [sort_by (compareByDate rt) (h ! posts)])"
  using assms by (simp add: sortPostsByDate_def spread_def array_sort_def nth_append)

lemma eval_dates:
  "getTime runtime0 (js ''2024-02-01'') = Some 1706745600000"
  "getTime runtime0 (js ''2024-01-01'') = Some 1704067200000"
  by code_simp+

text \<open>
  Claim C6. Sorting again changes nothing: for posts that are sorted by date,
  newest first, the array that \<open>sortPostsByDate\<close> returns holds the posts of its
  argument in the same order.
\<close>

theorem sortPostsByDate_idempotent:
  assumes "posts < length h" and "sorted_by_date_desc rt (h ! posts)"
  shows "case sortPostsByDate rt h posts of (r, h') \<Rightarrow> h' ! r = h ! posts"
  using assms by (simp add: nth_sortPostsByDate sorted_by_date_desc_def sort_by_sorted_id)

theorem sortPostsByDate_idempotent_witness:
  "(0::nat) < length [ [post_feb, post_jan] ] \<and>
   sorted_by_date_desc runtime0 ([ [post_feb, post_jan] ] ! 0) \<and>
   sortPostsByDate runtime0 [ [post_feb, post_jan] ] 0 = (1, [ [post_feb, post_jan], [post_feb, post_jan] ])"
proof -
  have l: "(0::nat) < length [ [post_feb, post_jan] ]" by simp
  have s: "sorted_by_date_desc runtime0 ([ [post_feb, post_jan] ] ! 0)"
    by (simp add: sorted_by_date_desc_def dated_def not_earlier_def post_feb_def post_jan_def eval_dates)
  from sortPostsByDate_idempotent [OF l s] l s show ?thesis
    by (simp add: nth_sortPostsByDate)
qed

text \<open>
  Claim C7, as amended. \<open>sortPostsByDate\<close> returns a new array and leaves its
  argument as it was: every array of the store, the argument among them, holds
  after the call what it held before. The new array holds the posts of the
  argument; when all of them are dated, it is sorted by date, newest first.
\<close>

theorem sortPostsByDate_new_array:
  assumes "posts < length h"
  shows "case sortPostsByDate rt h posts of (r, h') \<Rightarrow>
           r \<noteq> posts \<and> h' ! posts = h ! posts \<and> (\<forall>a<length h. h' ! a = h ! a) \<and>
           mset (h' ! r) = mset (h ! posts) \<and>
           (list_all (dated rt) (h ! posts) \<longrightarrow> sorted_by_date_desc rt (h' ! r))"
  using assms by (auto simp add: nth_sortPostsByDate nth_append mset_sort_by sorted_sort_by)

theorem sortPostsByDate_new_array_witness:
  "(0::nat) < length [ [post_jan, post_feb] ] \<and> list_all (dated runtime0) ([ [post_jan, post_feb] ] ! 0) \<and>
   sortPostsByDate runtime0 [ [post_jan, post_feb] ] 0 = (1, [ [post_jan, post_feb], [post_feb, post_jan] ]) \<and>
   sorted_by_date_desc runtime0 [post_feb, post_jan]"
proof -
  have l: "(0::nat) < length [ [post_jan, post_feb] ]" by simp
  have d: "list_all (dated runtime0) ([ [post_jan, post_feb] ] ! 0)"
    by (simp add: dated_def post_feb_def post_jan_def eval_dates)
  have e: "sortPostsByDate runtime0 [ [post_jan, post_feb] ] 0 = (1, [ [post_jan, post_feb], [post_feb, post_jan] ])"
    by (simp add: nth_sortPostsByDate sort_by_def compareByDate_def post_feb_def post_jan_def eval_dates)
  from sortPostsByDate_new_array [OF l, of runtime0] d e show ?thesis
    by simp
qed

text \<open>
  Claim C7 as it is stated asks for a sorted result for every sequence of posts.
  \<open>parseMarkdownFile\<close> makes a post of any date that is not empty, so a date such
  as \<^verbatim>\<open>TBD\<close> reaches the sort. Its comparisons count as 0, and the posts of
  January, \<^verbatim>\<open>TBD\<close> and February come back in this order: January before February.
\<close>

theorem sortPostsByDate_undated_counterexample:
  "getTime runtime0 (date post_jan) = Some 1704067200000 \<and>
   getTime runtime0 (date post_tbd) = None \<and>
   getTime runtime0 (date post_feb) = Some 1706745600000 \<and>
   sortPostsByDate runtime0 [ [post_jan, post_tbd, post_feb] ] 0 =
     (1, [ [post_jan, post_tbd, post_feb], [post_jan, post_tbd, post_feb] ]) \<and>
   \<not> not_earlier runtime0 post_jan post_feb \<and>
   \<not> sorted_by_date_desc runtime0 [post_jan, post_tbd, post_feb]"
proof -
  have t: "getTime runtime0 (js ''TBD'') = None"
    by code_simp
  show ?thesis
    by (simp add: nth_sortPostsByDate sort_by_def compareByDate_def sorted_by_date_desc_def
          not_earlier_def dated_def post_jan_def post_feb_def post_tbd_def eval_dates t)
qed


section \<open>Properties of the matcher\<close>

lemma exec_Atom:
  "exec (Atom P) b s = (case s of [] \<Rightarrow> None | c # cs \<Rightarrow> if P c then Some (False, cs, None) else None)"
  by (simp add: exec_def split: list.splits)

lemma replace_from_Nil: "exec r b [] = None \<Longrightarrow> replace_from r rep b [] = []"
  by (simp add: replace_from.simps [of r rep b "[]"])

lemma replace_from_no_match:
  "exec r b (c # cs) = None \<Longrightarrow> replace_from r rep b (c # cs) = c # replace_from r rep False cs"
  by (simp add: replace_from.simps [of r rep b "c # cs"])

lemma replace_from_match:
  "exec r b s = Some (b', s', cap) \<Longrightarrow> length s' < length s \<Longrightarrow>
   replace_from r rep b s = expand rep cap @ replace_from r rep False s'"
  by (simp add: replace_from.simps [of r rep b s])

lemma replace_from_Atom:
  "replace_from (Atom P) (Text t) b s = concat (map (\<lambda>c. if P c then t else [c]) s)"
proof (induction s arbitrary: b)
  case Nil
  show ?case by (simp add: replace_from_Nil exec_Atom)
next
  case (Cons c cs)
  show ?case
  proof (cases "P c")
    case True
    then have "exec (Atom P) b (c # cs) = Some (False, cs, None)" by (simp add: exec_Atom)
    from replace_from_match [OF this] True Cons show ?thesis by simp
  next
    case False
    then have "exec (Atom P) b (c # cs) = None" by (simp add: exec_Atom)
    from replace_from_no_match [OF this] False Cons show ?thesis by simp
  qed
qed

lemma replace_Atom_char:
  "replace (Atom P) (Text [x]) s = map (\<lambda>c. if P c then x else c) s"
  by (simp add: replace_def replace_from_Atom) (induction s; simp)

lemma replace_Atom_empty:
  "replace (Atom P) (Text []) s = filter (\<lambda>c. \<not> P c) s"
  by (simp add: replace_def replace_from_Atom) (induction s; simp)

lemma ms_Star_Atom:
  "\<exists>rest. ms (Star (Atom P)) (b, s, cap) =
            (if s \<noteq> [] \<and> P (hd s) then False else b, dropWhile P s, cap) # rest"
proof (induction s arbitrary: b)
  case Nil
  show ?case by simp
next
  case (Cons c cs)
  show ?case
  proof (cases "P c")
    case True
    from Cons [of False] obtain rest where
      "ms (Star (Atom P)) (False, cs, cap) = (False, dropWhile P cs, cap) # rest"
      by (auto split: if_splits)
    with True show ?thesis by simp
  next
    case False
    then show ?thesis by simp
  qed
qed

lemma exec_rplus_Atom:
  "exec (rplus (Atom P)) b s =
     (case s of [] \<Rightarrow> None | c # cs \<Rightarrow> if P c then Some (False, dropWhile P cs, None) else None)"
proof (cases s)
  case Nil
  then show ?thesis by (simp add: exec_def rplus_def)
next
  case (Cons c cs)
  show ?thesis
  proof (cases "P c")
    case True
    obtain rest where "ms (Star (Atom P)) (False, cs, None) =
        (False, dropWhile P cs, None) # rest"
      using ms_Star_Atom [of P False cs None] by (auto split: if_splits)
    with True Cons show ?thesis by (simp add: exec_def rplus_def)
  next
    case False
    with Cons show ?thesis by (simp add: exec_def rplus_def)
  qed
qed

section \<open>Properties of the identifier\<close>

lemma no_double_tl: "no_double h xs \<Longrightarrow> no_double h (tl xs)"
  by (induction h xs rule: no_double.induct) auto

lemma no_double_butlast: "no_double h xs \<Longrightarrow> no_double h (butlast xs)"
  by (induction h xs rule: no_double.induct) (auto split: if_splits)

lemma no_double_last_butlast:
  "no_double h xs \<Longrightarrow> xs \<noteq> [] \<Longrightarrow> last xs = h \<Longrightarrow> butlast xs \<noteq> [] \<Longrightarrow> last (butlast xs) \<noteq> h"
  by (induction h xs rule: no_double.induct) (auto split: if_splits)

lemma no_double_iff: "no_double h xs \<longleftrightarrow> \<not> (\<exists>u v. xs = u @ h # h # v)"
proof (induction h xs rule: no_double.induct)
  case (1 h x y zs)
  show ?case
  proof
    assume a: "no_double h (x # y # zs)"
    show "\<not> (\<exists>u v. x # y # zs = u @ h # h # v)"
    proof
      assume "\<exists>u v. x # y # zs = u @ h # h # v"
      then obtain u v where e: "x # y # zs = u @ h # h # v" by blast
      show False
      proof (cases u)
        case Nil
        with e a show False by simp
      next
        case (Cons u0 us)
        with e have "y # zs = us @ h # h # v" by simp
        then have "\<exists>u v. y # zs = u @ h # h # v" by blast
        moreover from a have "no_double h (y # zs)" by simp
        ultimately show False using 1 by blast
      qed
    qed
  next
    assume a: "\<not> (\<exists>u v. x # y # zs = u @ h # h # v)"
    have "\<not> (x = h \<and> y = h)"
    proof
      assume "x = h \<and> y = h"
      then have "x # y # zs = [] @ h # h # zs" by simp
      with a show False by blast
    qed
    moreover have "\<not> (\<exists>u v. y # zs = u @ h # h # v)"
    proof
      assume "\<exists>u v. y # zs = u @ h # h # v"
      then obtain u v where "y # zs = u @ h # h # v" by blast
      then have "x # y # zs = (x # u) @ h # h # v" by simp
      with a show False by blast
    qed
    ultimately show "no_double h (x # y # zs)" using 1 by simp
  qed
next
  case (2 h x)
  show ?case by (auto simp add: append_eq_Cons_conv)
next
  case (3 h)
  show ?case by simp
qed

lemma replace_hyphens_unfold:
  "replace_from re_hyphens (Text [hyphen]) b [] = []"
  "replace_from re_hyphens (Text [hyphen]) b (c # cs) =
     (if c = hyphen then hyphen # replace_from re_hyphens (Text [hyphen]) False (dropWhile (\<lambda>x. x = hyphen) cs)
      else c # replace_from re_hyphens (Text [hyphen]) False cs)"
proof -
  show "replace_from re_hyphens (Text [hyphen]) b [] = []"
    by (simp add: replace_from_Nil re_hyphens_def lit_def exec_rplus_Atom)
  show "replace_from re_hyphens (Text [hyphen]) b (c # cs) =
     (if c = hyphen then hyphen # replace_from re_hyphens (Text [hyphen]) False (dropWhile (\<lambda>x. x = hyphen) cs)
      else c # replace_from re_hyphens (Text [hyphen]) False cs)"
  proof (cases "c = hyphen")
    case True
    then have e: "exec re_hyphens b (c # cs) = Some (False, dropWhile (\<lambda>x. x = hyphen) cs, None)"
      by (simp add: re_hyphens_def lit_def exec_rplus_Atom)
    have "length (dropWhile (\<lambda>x. x = hyphen) cs) < length (c # cs)"
      using length_dropWhile_le [of "\<lambda>x. x = hyphen" cs] by simp
    from replace_from_match [OF e this] True show ?thesis by simp
  next
    case False
    then have "exec re_hyphens b (c # cs) = None"
      by (simp add: re_hyphens_def lit_def exec_rplus_Atom)
    from replace_from_no_match [OF this] False show ?thesis by simp
  qed
qed

lemma replace_hyphens_props:
  "set (replace_from re_hyphens (Text [hyphen]) b s) \<subseteq> set s \<and>
   no_double hyphen (replace_from re_hyphens (Text [hyphen]) b s) \<and>
   (s = [] \<longrightarrow> replace_from re_hyphens (Text [hyphen]) b s = []) \<and>
   (s \<noteq> [] \<longrightarrow> replace_from re_hyphens (Text [hyphen]) b s \<noteq> [] \<and>
                hd (replace_from re_hyphens (Text [hyphen]) b s) = hd s)"
proof (induction "length s" arbitrary: s b rule: less_induct)
  case less
  show ?case
  proof (cases s)
    case Nil
    then show ?thesis by (simp add: replace_hyphens_unfold)
  next
    case (Cons c cs)
    let ?R = "replace_from re_hyphens (Text [hyphen]) False"
    show ?thesis
    proof (cases "c = hyphen")
      case True
      let ?d = "dropWhile (\<lambda>x. x = hyphen) cs"
      have "length ?d < length s"
        using length_dropWhile_le [of "\<lambda>x. x = hyphen" cs] Cons by simp
      from less [OF this, of False] have
        ih: "set (?R ?d) \<subseteq> set ?d" "no_double hyphen (?R ?d)"
          "?d = [] \<longrightarrow> ?R ?d = []" "?d \<noteq> [] \<longrightarrow> hd (?R ?d) = hd ?d"
        by blast+
      have sub: "set ?d \<subseteq> set cs"
        using set_dropWhileD by fastforce
      have "?d \<noteq> [] \<longrightarrow> hd ?d \<noteq> hyphen"
        using hd_dropWhile [of "\<lambda>x. x = hyphen" cs] by blast
      with ih(3,4) have hd: "?R ?d = [] \<or> hd (?R ?d) \<noteq> hyphen"
        by metis
      have "no_double hyphen (hyphen # ?R ?d)"
        using hd ih(2) by (cases "?R ?d") auto
      moreover have "replace_from re_hyphens (Text [hyphen]) b s = hyphen # ?R ?d"
        using True Cons by (simp add: replace_hyphens_unfold)
      ultimately show ?thesis
        using ih(1) sub True Cons by auto
    next
      case False
      have "length cs < length s" using Cons by simp
      from less [OF this, of False] have
        ih: "set (?R cs) \<subseteq> set cs" "no_double hyphen (?R cs)" by blast+
      have "no_double hyphen (c # ?R cs)"
        using False ih(2) by (cases "?R cs") auto
      moreover have "replace_from re_hyphens (Text [hyphen]) b s = c # ?R cs"
        using False Cons by (simp add: replace_hyphens_unfold)
      ultimately show ?thesis
        using ih(1) Cons by auto
    qed
  qed
qed

lemma exec_edgeHyphen:
  "exec re_edgeHyphen b s =
     (case s of [] \<Rightarrow> None
      | c # cs \<Rightarrow> if c = hyphen \<and> (b \<or> cs = []) then Some (False, cs, None) else None)"
  by (cases s) (auto simp add: exec_def re_edgeHyphen_def lit_def)

lemma replace_edge_False:
  "replace_from re_edgeHyphen (Text []) False s =
     (if s \<noteq> [] \<and> last s = hyphen then butlast s else s)"
proof (induction s)
  case Nil
  show ?case by (simp add: replace_from_Nil exec_edgeHyphen)
next
  case (Cons c cs)
  show ?case
  proof (cases "c = hyphen \<and> cs = []")
    case True
    then have e: "exec re_edgeHyphen False (c # cs) = Some (False, cs, None)"
      by (simp add: exec_edgeHyphen)
    have "replace_from re_edgeHyphen (Text []) False [] = []"
      by (simp add: replace_from_Nil exec_edgeHyphen)
    with replace_from_match [OF e] True show ?thesis by simp
  next
    case False
    then have "exec re_edgeHyphen False (c # cs) = None"
      by (auto simp add: exec_edgeHyphen)
    from replace_from_no_match [OF this] False Cons show ?thesis by auto
  qed
qed

lemma replace_edge:
  "replace re_edgeHyphen (Text []) s =
     (let s' = (if s \<noteq> [] \<and> hd s = hyphen then tl s else s)
      in if s' \<noteq> [] \<and> last s' = hyphen then butlast s' else s')"
proof (cases s)
  case Nil
  then show ?thesis by (simp add: replace_def replace_from_Nil exec_edgeHyphen)
next
  case (Cons c cs)
  show ?thesis
  proof (cases "c = hyphen")
    case True
    then have e: "exec re_edgeHyphen True (c # cs) = Some (False, cs, None)"
      by (simp add: exec_edgeHyphen)
    from replace_from_match [OF e] True Cons show ?thesis
      by (simp add: replace_def replace_edge_False)
  next
    case False
    then have "exec re_edgeHyphen True (c # cs) = None"
      by (simp add: exec_edgeHyphen)
    from replace_from_no_match [OF this] False Cons show ?thesis
      by (simp add: replace_def replace_edge_False)
  qed
qed

lemma strip_edges_props:
  assumes "no_double h s"
  defines "s' \<equiv> if s \<noteq> [] \<and> hd s = h then tl s else s"
  defines "r \<equiv> if s' \<noteq> [] \<and> last s' = h then butlast s' else s'"
  shows "set r \<subseteq> set s" and "no_double h r" and "r \<noteq> [] \<longrightarrow> hd r \<noteq> h \<and> last r \<noteq> h"
proof -
  have s'_sub: "set s' \<subseteq> set s"
    by (cases s) (auto simp add: s'_def)
  have s'_nd: "no_double h s'"
    using assms(1) by (simp add: s'_def no_double_tl)
  have s'_hd: "s' \<noteq> [] \<longrightarrow> hd s' \<noteq> h"
  proof (cases s)
    case Nil
    then show ?thesis by (simp add: s'_def)
  next
    case (Cons c cs)
    with assms(1) show ?thesis by (cases cs) (auto simp add: s'_def)
  qed
  show "set r \<subseteq> set s"
    using s'_sub in_set_butlastD [of _ s'] by (auto simp add: r_def)
  show "no_double h r"
    using s'_nd by (simp add: r_def no_double_butlast)
  have "hd r \<noteq> h" if "r \<noteq> []"
  proof (cases "s' \<noteq> [] \<and> last s' = h")
    case True
    with that have "butlast s' \<noteq> []" by (simp add: r_def)
    then have "hd (butlast s') = hd s'" by (cases s') (auto split: if_splits)
    with True s'_hd show ?thesis by (simp add: r_def)
  next
    case False
    with that s'_hd show ?thesis by (auto simp add: r_def)
  qed
  moreover have "last r \<noteq> h" if "r \<noteq> []"
  proof (cases "s' \<noteq> [] \<and> last s' = h")
    case True
    with that no_double_last_butlast [OF s'_nd] show ?thesis by (simp add: r_def)
  next
    case False
    with that show ?thesis by (auto simp add: r_def)
  qed
  ultimately show "r \<noteq> [] \<longrightarrow> hd r \<noteq> h \<and> last r \<noteq> h" by blast
qed

lemma in_set_dropWhile: "c \<in> set cs \<Longrightarrow> \<not> P c \<Longrightarrow> c \<in> set (dropWhile P cs)"
  by (induction cs) auto

lemma replace_hyphens_keeps:
  "c \<in> set s \<Longrightarrow> c \<noteq> hyphen \<Longrightarrow> c \<in> set (replace_from re_hyphens (Text [hyphen]) b s)"
proof (induction "length s" arbitrary: s b rule: less_induct)
  case less
  from less.prems obtain x xs where s: "s = x # xs" by (cases s) auto
  show ?case
  proof (cases "x = hyphen")
    case True
    let ?d = "dropWhile (\<lambda>x. x = hyphen) xs"
    have l: "length ?d < length s"
      using length_dropWhile_le [of "\<lambda>x. x = hyphen" xs] s by simp
    from less.prems True s have "c \<in> set xs" by auto
    with less.prems have "c \<in> set ?d" by (intro in_set_dropWhile) simp_all
    from less.hyps [OF l this less.prems(2), of False] True s show ?thesis
      by (simp add: replace_hyphens_unfold)
  next
    case False
    have l: "length xs < length s" using s by simp
    show ?thesis
    proof (cases "c = x")
      case True
      with False s show ?thesis by (simp add: replace_hyphens_unfold)
    next
      case c: False
      with less.prems s have "c \<in> set xs" by auto
      from less.hyps [OF l this less.prems(2), of False] False s show ?thesis
        by (simp add: replace_hyphens_unfold)
    qed
  qed
qed

lemma strip_edges_keeps:
  assumes "c \<in> set s" "c \<noteq> h"
  defines "s' \<equiv> if s \<noteq> [] \<and> hd s = h then tl s else s"
  shows "c \<in> set (if s' \<noteq> [] \<and> last s' = h then butlast s' else s')"
proof -
  have 1: "c \<in> set s'"
    using assms(1,2) by (cases s) (auto simp add: s'_def)
  have "c \<in> set (butlast s')" if "s' \<noteq> []" "last s' = h"
  proof -
    from that have "s' = butlast s' @ [h]" by (metis append_butlast_last_id)
    then have "set s' = set (butlast s') \<union> {h}" by (metis set_append list.set(1,2) Un_insert_right sup_bot.right_neutral)
    with 1 assms(2) show ?thesis by auto
  qed
  with 1 show ?thesis by simp
qed

lemma hyphen_not_idChar [simp]: "\<not> isIdChar hyphen"
  by (simp add: isIdChar_def hyphen_def)

lemma generatePostId_props:
  "(\<forall>c\<in>set (generatePostId rt filename). isIdChar c \<or> c = hyphen) \<and>
   no_double hyphen (generatePostId rt filename) \<and>
   (generatePostId rt filename \<noteq> [] \<longrightarrow>
      hd (generatePostId rt filename) \<noteq> hyphen \<and> last (generatePostId rt filename) \<noteq> hyphen)"
proof -
  let ?s1 = "replace re_notIdChar (Text [hyphen]) (toLowerCase rt (basename rt filename (Some (js ''.md''))))"
  let ?s2 = "replace re_hyphens (Text [hyphen]) ?s1"
  have 1: "\<forall>c\<in>set ?s1. isIdChar c \<or> c = hyphen"
    by (auto simp add: re_notIdChar_def replace_Atom_char)
  have 2: "set ?s2 \<subseteq> set ?s1" "no_double hyphen ?s2"
    using replace_hyphens_props [of True ?s1] by (simp_all add: replace_def)
  have id: "generatePostId rt filename = replace re_edgeHyphen (Text []) ?s2"
    by (simp add: generatePostId_def)
  note 3 = strip_edges_props [OF 2(2)]
  show ?thesis
    unfolding id replace_edge Let_def using 1 2(1) 3 by blast
qed

lemma generatePostId_empty_iff:
  "generatePostId rt filename = [] \<longleftrightarrow>
     \<not> (\<exists>c\<in>set (toLowerCase rt (basename rt filename (Some (js ''.md'')))). isIdChar c)"
proof
  let ?l = "toLowerCase rt (basename rt filename (Some (js ''.md'')))"
  let ?s1 = "replace re_notIdChar (Text [hyphen]) ?l"
  let ?s2 = "replace re_hyphens (Text [hyphen]) ?s1"
  have id: "generatePostId rt filename = replace re_edgeHyphen (Text []) ?s2"
    by (simp add: generatePostId_def)
  have s1: "?s1 = map (\<lambda>c. if \<not> isIdChar c then hyphen else c) ?l"
    by (simp add: re_notIdChar_def replace_Atom_char)
  {
    assume e: "generatePostId rt filename = []"
    show "\<not> (\<exists>c\<in>set ?l. isIdChar c)"
    proof
      assume "\<exists>c\<in>set ?l. isIdChar c"
      then obtain c where c: "c \<in> set ?l" "isIdChar c" by blast
      then have "c \<in> set ?s1" unfolding s1 by force
      moreover from c have n: "c \<noteq> hyphen" by auto
      ultimately have "c \<in> set ?s2"
        unfolding replace_def by (rule replace_hyphens_keeps)
      from strip_edges_keeps [OF this n] have "c \<in> set (generatePostId rt filename)"
        unfolding id replace_edge Let_def .
      with e show False by simp
    qed
  }
  {
    assume n: "\<not> (\<exists>c\<in>set ?l. isIdChar c)"
    show "generatePostId rt filename = []"
    proof (rule ccontr)
      assume ne: "generatePostId rt filename \<noteq> []"
      note p = generatePostId_props [of rt filename]
      from ne p have h: "hd (generatePostId rt filename) \<noteq> hyphen" by blast
      from ne have m: "hd (generatePostId rt filename) \<in> set (generatePostId rt filename)" by simp
      with p h have i: "isIdChar (hd (generatePostId rt filename))" by blast
      have "set (generatePostId rt filename) \<subseteq> set ?s2"
        unfolding id replace_edge Let_def
        using strip_edges_props(1) [of hyphen ?s2] replace_hyphens_props [of True ?s1]
        by (simp add: replace_def)
      moreover have "set ?s2 \<subseteq> set ?s1"
        using replace_hyphens_props [of True ?s1] by (simp add: replace_def)
      ultimately have "hd (generatePostId rt filename) \<in> set ?s1" using m by blast
      then obtain c where "c \<in> set ?l" "hd (generatePostId rt filename) = (if \<not> isIdChar c then hyphen else c)"
        unfolding s1 by auto
      with i n show False by (auto split: if_splits)
    qed
  }
qed

text \<open>
  Claim C2, as amended. The identifier made from a file name has only the code
  units of the lower-case letters a to z, of the digits, of U+4E00 to U+9FA5 (all
  of them ideographs) and of the hyphen; it does not start with a hyphen, does
  not end with one, and has no two hyphens in a row. It has at least one code
  unit exactly when the name without its extension, in lower case, has a letter
  a to z, a digit or a code unit from U+4E00 to U+9FA5; otherwise it is empty.
\<close>

theorem generatePostId_shape:
  "(\<forall>c\<in>set (generatePostId rt filename).
      (97 \<le> c \<and> c \<le> 122) \<or> (48 \<le> c \<and> c \<le> 57) \<or> (0x4e00 \<le> c \<and> c \<le> 0x9fa5) \<or> c = 45) \<and>
   \<not> (\<exists>t. generatePostId rt filename = 45 # t) \<and>
   \<not> (\<exists>t. generatePostId rt filename = t @ [45]) \<and>
   \<not> (\<exists>u v. generatePostId rt filename = u @ 45 # 45 # v) \<and>
   (generatePostId rt filename \<noteq> [] \<longleftrightarrow>
      (\<exists>c\<in>set (toLowerCase rt (basename rt filename (Some (js ''.md'')))).
         (97 \<le> c \<and> c \<le> 122) \<or> (48 \<le> c \<and> c \<le> 57) \<or> (0x4e00 \<le> c \<and> c \<le> 0x9fa5)))"
proof -
  note p = generatePostId_props [of rt filename]
  have "\<not> (\<exists>t. generatePostId rt filename = 45 # t)"
    using p by (auto simp add: hyphen_def)
  moreover have "\<not> (\<exists>t. generatePostId rt filename = t @ [45])"
    using p by (auto simp add: hyphen_def)
  moreover have "\<not> (\<exists>u v. generatePostId rt filename = u @ 45 # 45 # v)"
    using p no_double_iff [of hyphen "generatePostId rt filename"] by (simp add: hyphen_def)
  moreover have "\<forall>c\<in>set (generatePostId rt filename).
      (97 \<le> c \<and> c \<le> 122) \<or> (48 \<le> c \<and> c \<le> 57) \<or> (0x4e00 \<le> c \<and> c \<le> 0x9fa5) \<or> c = 45"
    using p by (simp add: isIdChar_def hyphen_def)
  moreover have "generatePostId rt filename \<noteq> [] \<longleftrightarrow>
      (\<exists>c\<in>set (toLowerCase rt (basename rt filename (Some (js ''.md'')))).
         (97 \<le> c \<and> c \<le> 122) \<or> (48 \<le> c \<and> c \<le> 57) \<or> (0x4e00 \<le> c \<and> c \<le> 0x9fa5))"
    using generatePostId_empty_iff [of rt filename] by (simp add: isIdChar_def)
  ultimately show ?thesis by blast
qed

theorem generatePostId_shape_witness:
  "generatePostId runtime0 (js ''2024-01-15_My  First--Run!.md'') = js ''2024-01-15-my-first-run'' \<and>
   toLowerCase runtime0 (basename runtime0 (js ''2024-01-15_My  First--Run!.md'') (Some (js ''.md'')))
     = js ''2024-01-15_my  first--run!'' \<and>
   list_all (\<lambda>c. (97 \<le> c \<and> c \<le> 122) \<or> (48 \<le> c \<and> c \<le> 57) \<or> (0x4e00 \<le> c \<and> c \<le> 0x9fa5) \<or> c = 45)
     (js ''2024-01-15-my-first-run'') \<and>
   \<not> (\<exists>t. js ''2024-01-15-my-first-run'' = 45 # t) \<and>
   \<not> (\<exists>t. js ''2024-01-15-my-first-run'' = t @ [45]) \<and>
   \<not> (\<exists>u v. js ''2024-01-15-my-first-run'' = u @ 45 # 45 # v) \<and>
   js ''2024-01-15-my-first-run'' \<noteq> [] \<and>
   list_ex (\<lambda>c. (97 \<le> c \<and> c \<le> 122) \<or> (48 \<le> c \<and> c \<le> 57) \<or> (0x4e00 \<le> c \<and> c \<le> 0x9fa5))
     (js ''2024-01-15_my  first--run!'')"
proof -
  have e: "generatePostId runtime0 (js ''2024-01-15_My  First--Run!.md'') = js ''2024-01-15-my-first-run''"
    by code_simp
  have l: "toLowerCase runtime0 (basename runtime0 (js ''2024-01-15_My  First--Run!.md'') (Some (js ''.md'')))
     = js ''2024-01-15_my  first--run!''"
    by code_simp
  from generatePostId_shape [of runtime0 "js ''2024-01-15_My  First--Run!.md''"]
  show ?thesis unfolding e l by (simp add: list_all_iff list_ex_iff)
qed

text \<open>
  Claim C2 as it is stated asks for at least one code unit. The file name
  \<^verbatim>\<open>---.md\<close> gives the empty identifier.
\<close>

theorem generatePostId_empty_counterexample:
  "generatePostId runtime0 (js ''---.md'') = []"
  by code_simp


section \<open>Properties of the reading time\<close>

lemma matches_from_Atom: "matches_from (Atom P) b s = map (\<lambda>c. [c]) (filter P s)"
proof (induction s arbitrary: b)
  case Nil
  show ?case by (simp add: matches_from.simps [of _ _ "[]"] exec_Atom)
next
  case (Cons c cs)
  then show ?case by (simp add: matches_from.simps [of _ _ "c # cs"] exec_Atom)
qed

lemma match_or_empty:
  "(case match r s of None \<Rightarrow> [] | Some m \<Rightarrow> m) = matches_from r True s"
  by (simp add: match_def split: list.splits)

lemma length_match_chinese:
  "length (case match re_chinese s of None \<Rightarrow> [] | Some m \<Rightarrow> m) = cjkCount s"
  by (simp add: match_or_empty re_chinese_def matches_from_Atom cjkCount_def)

lemma replace_chinese: "replace re_chinese (Text []) s = filter (\<lambda>c. \<not> isChinese c) s"
  by (simp add: re_chinese_def replace_Atom_empty)

lemma pieces_not_Nil [simp]: "pieces s \<noteq> []"
  by (induction s) (auto split: list.splits)

lemma tokens_dropWhile: "tokens (dropWhile isSpace s) = tokens s"
  by (induction s) (auto simp add: tokens_def)

lemma exec_spaces:
  "exec re_spaces b s =
     (case s of [] \<Rightarrow> None
      | c # cs \<Rightarrow> if isSpace c then Some (False, dropWhile isSpace cs, None) else None)"
  by (simp add: re_spaces_def exec_rplus_Atom)

lemma split_from_spaces:
  "filter (\<lambda>t. t \<noteq> []) (split_from re_spaces b cur s) =
   filter (\<lambda>t. t \<noteq> []) ((cur @ hd (pieces s)) # tl (pieces s))"
proof (induction "length s" arbitrary: s cur b rule: less_induct)
  case less
  show ?case
  proof (cases s)
    case Nil
    then show ?thesis by (simp add: split_from.simps [of _ _ _ "[]"])
  next
    case (Cons c cs)
    show ?thesis
    proof (cases "isSpace c")
      case True
      let ?d = "dropWhile isSpace cs"
      have l: "length ?d < length s"
        using length_dropWhile_le [of isSpace cs] Cons by simp
      have "split_from re_spaces b cur s = cur # split_from re_spaces False [] ?d"
        using True Cons l by (simp add: split_from.simps [of _ b cur "c # cs"] exec_spaces)
      moreover have "filter (\<lambda>t. t \<noteq> []) (split_from re_spaces False [] ?d) = tokens cs"
        using less [OF l, of False "[]"] tokens_dropWhile [of cs]
        by (simp add: tokens_def hd_Cons_tl)
      ultimately show ?thesis
        using True Cons by (simp add: tokens_def)
    next
      case False
      have l: "length cs < length s" using Cons by simp
      have "split_from re_spaces b cur s = split_from re_spaces False (cur @ [c]) cs"
        using False Cons by (simp add: split_from.simps [of _ b cur "c # cs"] exec_spaces)
      with less [OF l, of False "cur @ [c]"] False Cons show ?thesis
        by (cases "pieces cs") simp_all
    qed
  qed
qed

lemma filter_split_spaces:
  "filter (\<lambda>word. word \<noteq> []) (split re_spaces s) = tokens s"
proof (cases "s = []")
  case True
  then show ?thesis by (simp add: split_def exec_spaces tokens_def)
next
  case False
  then show ?thesis
    using split_from_spaces [of True "[]" s] by (simp add: split_def tokens_def hd_Cons_tl)
qed

lemma calculateReadingTime_eq:
  "calculateReadingTime content' =
     max 1 \<lceil>(of_nat (cjkCount (stripMarkdown content')) :: rat) / 200 +
            of_nat (wordCount (filter (\<lambda>c. \<not> isChinese c) (stripMarkdown content'))) / 250\<rceil>"
  by (simp add: calculateReadingTime_def Let_def length_match_chinese filter_split_spaces
        wordCount_def replace_chinese)

text \<open>
  Claim C1. For every text, \<open>calculateReadingTime\<close> is the larger of 1 and the
  ceiling of \<open>cjkCount / 200 + wordCount / 250\<close>, where \<open>cjkCount\<close> counts the
  code units from U+4E00 to U+9FA5 in the text stripped of its markup and
  \<open>wordCount\<close> counts the words of the stripped text without these code units.
  It is at least 1, also for the empty text.
\<close>

theorem calculateReadingTime_formula:
  "calculateReadingTime text' =
     max 1 \<lceil>(of_nat (cjkCount (stripMarkdown text')) :: rat) / 200 +
            of_nat (wordCount (filter (\<lambda>c. \<not> isChinese c) (stripMarkdown text'))) / 250\<rceil> \<and>
   1 \<le> calculateReadingTime text' \<and> calculateReadingTime [] = 1"
proof -
  have "calculateReadingTime [] = 1"
    by code_simp
  then show ?thesis
    by (simp add: calculateReadingTime_eq)
qed

theorem calculateReadingTime_formula_witness:
  "stripMarkdown [0x8dd1, 0x6b65, 32, 104, 105, 32, 96, 120, 96] = [0x8dd1, 0x6b65, 32, 104, 105, 32] \<and>
   cjkCount [0x8dd1, 0x6b65, 32, 104, 105, 32] = 2 \<and>
   wordCount (filter (\<lambda>c. \<not> isChinese c) [0x8dd1, 0x6b65, 32, 104, 105, 32]) = 1 \<and>
   calculateReadingTime [0x8dd1, 0x6b65, 32, 104, 105, 32, 96, 120, 96] = max 1 \<lceil>(2 :: rat) / 200 + 1 / 250\<rceil> \<and>
   calculateReadingTime [0x8dd1, 0x6b65, 32, 104, 105, 32, 96, 120, 96] = 1"
proof -
  have s: "stripMarkdown [0x8dd1, 0x6b65, 32, 104, 105, 32, 96, 120, 96] = [0x8dd1, 0x6b65, 32, 104, 105, 32]"
    by code_simp
  have c: "cjkCount [0x8dd1, 0x6b65, 32, 104, 105, 32] = 2"
    by (simp add: cjkCount_def isChinese_def)
  have w: "wordCount (filter (\<lambda>c. \<not> isChinese c) [0x8dd1, 0x6b65, 32, 104, 105, 32]) = 1"
    by (simp add: wordCount_def tokens_def isChinese_def isSpace_def)
  from calculateReadingTime_formula [of "[0x8dd1, 0x6b65, 32, 104, 105, 32, 96, 120, 96]"] s c w
  show ?thesis by (simp add: ceiling_eq_iff)
qed


section \<open>Texts without markup\<close>

lemma replace_from_inert:
  assumes "\<And>b c cs. set (c # cs) \<subseteq> set s \<Longrightarrow> exec r b (c # cs) = None"
    and "\<And>b. exec r b [] = None"
  shows "replace_from r rep b s = s"
  using assms(1)
proof (induction s arbitrary: b)
  case Nil
  show ?case by (simp add: replace_from_Nil assms(2))
next
  case (Cons c cs)
  have "exec r b (c # cs) = None" by (rule Cons.prems) simp
  moreover have "replace_from r rep False cs = cs"
  proof (rule Cons.IH)
    fix b' c' cs' assume "set (c' # cs') \<subseteq> set cs"
    then have "set (c' # cs') \<subseteq> set (c # cs)" by auto
    then show "exec r b' (c' # cs') = None" by (rule Cons.prems)
  qed
  ultimately show ?case by (simp add: replace_from_no_match)
qed

lemma replace_from_skip:
  assumes "\<And>b c cs. c \<in> set p \<Longrightarrow> exec r b (c # cs) = None"
  shows "replace_from r rep b (p @ s) = p @ replace_from r rep (b \<and> p = []) s"
  using assms
proof (induction p arbitrary: b)
  case Nil
  show ?case by simp
next
  case (Cons c p)
  have "exec r b (c # p @ s) = None" by (rule Cons.prems) simp
  moreover have "replace_from r rep False (p @ s) = p @ replace_from r rep (False \<and> p = []) s"
    by (rule Cons.IH) (simp add: Cons.prems)
  ultimately show ?case by (simp add: replace_from_no_match)
qed

lemma exec_Seq_Atom_None:
  "\<not> P c \<Longrightarrow> exec (Seq (Atom P) r) b (c # cs) = None"
  "exec (Seq (Atom P) r) b [] = None"
  "\<not> P c \<Longrightarrow> exec (Seq (Seq (Atom P) r) r') b (c # cs) = None"
  "exec (Seq (Seq (Atom P) r) r') b [] = None"
  by (simp_all add: exec_def)

lemma replace_inert_Seq:
  assumes "\<forall>c\<in>set s. \<not> P c"
  shows "replace (Seq (Atom P) r) rep s = s"
    and "replace (Seq (Seq (Atom P) r) r') rep s = s"
proof -
  have n: "\<not> P c" if "set (c # cs) \<subseteq> set s" for c cs
    using that assms by auto
  show "replace (Seq (Atom P) r) rep s = s"
    unfolding replace_def
  proof (rule replace_from_inert)
    fix b c cs assume "set (c # cs) \<subseteq> set s"
    then have "\<not> P c" by (rule n)
    then show "exec (Seq (Atom P) r) b (c # cs) = None" by (rule exec_Seq_Atom_None)
  next
    fix b show "exec (Seq (Atom P) r) b [] = None" by (rule exec_Seq_Atom_None)
  qed
  show "replace (Seq (Seq (Atom P) r) r') rep s = s"
    unfolding replace_def
  proof (rule replace_from_inert)
    fix b c cs assume "set (c # cs) \<subseteq> set s"
    then have "\<not> P c" by (rule n)
    then show "exec (Seq (Seq (Atom P) r) r') b (c # cs) = None" by (rule exec_Seq_Atom_None)
  next
    fix b show "exec (Seq (Seq (Atom P) r) r') b [] = None" by (rule exec_Seq_Atom_None)
  qed
qed

lemma inert_codeBlock: "backtick \<notin> set s \<Longrightarrow> replace re_codeBlock rep s = s"
  by (auto simp add: re_codeBlock_def lit_def intro!: replace_inert_Seq)

lemma inert_inlineCode: "backtick \<notin> set s \<Longrightarrow> replace re_inlineCode rep s = s"
  by (auto simp add: re_inlineCode_def lit_def intro!: replace_inert_Seq)

lemma exec_image_None: "91 \<notin> set cs \<Longrightarrow> exec re_image b (c # cs) = None"
  by (cases cs) (simp_all add: exec_def re_image_def lit_def)

lemma inert_image: "91 \<notin> set s \<Longrightarrow> replace re_image rep s = s"
  unfolding replace_def
proof (rule replace_from_inert)
  fix b c cs assume "91 \<notin> set s" "set (c # cs) \<subseteq> set s"
  then have "91 \<notin> set cs" by auto
  then show "exec re_image b (c # cs) = None" by (rule exec_image_None)
next
  fix b show "exec re_image b [] = None"
    by (simp add: re_image_def lit_def exec_Seq_Atom_None)
qed

lemma inert_link: "91 \<notin> set s \<Longrightarrow> replace re_link rep s = s"
  by (auto simp add: re_link_def lit_def intro!: replace_inert_Seq)

lemma exec_heading_None:
  "c \<noteq> 35 \<Longrightarrow> exec re_heading b (c # cs) = None"
  "exec re_heading b [] = None"
  by (simp_all add: re_heading_def lit_def exec_Seq_Atom_None)

lemma inert_heading: "35 \<notin> set s \<Longrightarrow> replace re_heading rep s = s"
  by (auto simp add: re_heading_def lit_def intro!: replace_inert_Seq)

lemma inert_emphasis: "42 \<notin> set s \<Longrightarrow> 95 \<notin> set s \<Longrightarrow> replace re_emphasis rep s = s"
  by (auto simp add: re_emphasis_def intro!: replace_inert_Seq)

lemma replace_newline: "replace re_newline (Text [space]) s = map nl2sp s"
  by (simp add: re_newline_def lit_def replace_Atom_char nl2sp_def)

lemma stripMarkdown_plain:
  assumes "markup_free s"
  shows "stripMarkdown s = map nl2sp s"
proof -
  from assms have "backtick \<notin> set s" "91 \<notin> set s" "35 \<notin> set s" "42 \<notin> set s" "95 \<notin> set s"
    by (auto simp add: markup_free_def list_all_iff isMarkup_def backtick_def)
  then show ?thesis
    by (simp add: stripMarkdown_def inert_codeBlock inert_inlineCode inert_image inert_link
          inert_heading inert_emphasis replace_newline)
qed
lemma isSpace_nl2sp [simp]: "isSpace (nl2sp c) = isSpace c"
  by (simp add: nl2sp_def isSpace_def newline_def space_def)

lemma isChinese_nl2sp [simp]: "isChinese (nl2sp c) = isChinese c"
  by (simp add: nl2sp_def isChinese_def newline_def space_def)

lemma pieces_map_nl2sp: "pieces (map nl2sp s) = map (map nl2sp) (pieces s)"
  by (induction s) (auto split: list.splits)

lemma wordCount_map_nl2sp: "wordCount (map nl2sp s) = wordCount s"
proof -
  have "length (filter (\<lambda>t. t \<noteq> []) (map (map nl2sp) ps)) = length (filter (\<lambda>t. t \<noteq> []) ps)" for ps
    by (induction ps) auto
  then show ?thesis by (simp add: wordCount_def tokens_def pieces_map_nl2sp)
qed

lemma cjkCount_map_nl2sp: "cjkCount (map nl2sp s) = cjkCount s"
  by (induction s) (auto simp add: cjkCount_def)

lemma filter_map_nl2sp:
  "filter (\<lambda>c. \<not> isChinese c) (map nl2sp s) = map nl2sp (filter (\<lambda>c. \<not> isChinese c) s)"
  by (induction s) auto

lemma calculateReadingTime_plain:
  assumes "markup_free s"
  shows "calculateReadingTime s =
     max 1 \<lceil>(of_nat (cjkCount s) :: rat) / 200 +
            of_nat (wordCount (filter (\<lambda>c. \<not> isChinese c) s)) / 250\<rceil>"
  by (simp add: calculateReadingTime_eq stripMarkdown_plain [OF assms] cjkCount_map_nl2sp
        filter_map_nl2sp wordCount_map_nl2sp)

lemma wordCount_append_aux:
  "length (filter (\<lambda>t. t \<noteq> []) (tl (pieces s))) \<le> length (filter (\<lambda>t. t \<noteq> []) (tl (pieces (s @ t)))) \<and>
   length (filter (\<lambda>t. t \<noteq> []) (pieces s)) \<le> length (filter (\<lambda>t. t \<noteq> []) (pieces (s @ t)))"
proof (induction s)
  case Nil
  show ?case by simp
next
  case (Cons c cs)
  obtain p ps where p: "pieces cs = p # ps" by (cases "pieces cs") simp_all
  obtain q qs where q: "pieces (cs @ t) = q # qs" by (cases "pieces (cs @ t)") simp_all
  from Cons p q show ?case by auto
qed

lemma wordCount_append: "wordCount s \<le> wordCount (s @ t)"
  using wordCount_append_aux [of s t] by (simp add: wordCount_def tokens_def)

lemma cjkCount_append: "cjkCount s \<le> cjkCount (s @ t)"
  by (simp add: cjkCount_def)

lemma reading_time_mono:
  assumes "c \<le> c'" "w \<le> w'"
  shows "max 1 \<lceil>(of_nat c :: rat) / 200 + of_nat w / 250\<rceil> \<le> max 1 \<lceil>(of_nat c' :: rat) / 200 + of_nat w' / 250\<rceil>"
proof -
  have "(of_nat c :: rat) / 200 + of_nat w / 250 \<le> of_nat c' / 200 + of_nat w' / 250"
    using assms by (intro add_mono divide_right_mono) simp_all
  then have "\<lceil>(of_nat c :: rat) / 200 + of_nat w / 250\<rceil> \<le> \<lceil>(of_nat c' :: rat) / 200 + of_nat w' / 250\<rceil>"
    by (rule ceiling_mono)
  then show ?thesis by simp
qed

lemma calculateReadingTime_plain_mono:
  assumes "markup_free (t @ s)"
  shows "calculateReadingTime t \<le> calculateReadingTime (t @ s)"
proof -
  from assms have "markup_free t" by (simp add: markup_free_def)
  then show ?thesis
    using assms wordCount_append [of "filter (\<lambda>c. \<not> isChinese c) t" "filter (\<lambda>c. \<not> isChinese c) s"]
    by (simp add: calculateReadingTime_plain reading_time_mono cjkCount_append del: max.bounded_iff)
qed

lemma cjk_only_markup_free: "cjk_only s \<Longrightarrow> markup_free s"
  by (auto simp add: cjk_only_def markup_free_def list_all_iff isChinese_def isMarkup_def)

section \<open>A heading marker at the end of a text\<close>

lemma heading_at_end:
  "replace_from re_heading (Text []) b (js ''#'') = js ''#''"
  "replace_from re_heading (Text []) b (js ''# '') = []"
proof -
  have "replace_from re_heading (Text []) True (js ''#'') = js ''#''"
       "replace_from re_heading (Text []) False (js ''#'') = js ''#''"
       "replace_from re_heading (Text []) True (js ''# '') = []"
       "replace_from re_heading (Text []) False (js ''# '') = []"
    by code_simp+
  then show "replace_from re_heading (Text []) b (js ''#'') = js ''#''"
    and "replace_from re_heading (Text []) b (js ''# '') = []"
    by (cases b; simp)+
qed

lemma replace_heading_at_end:
  assumes "35 \<notin> set p"
  shows "replace re_heading (Text []) (p @ js ''#'') = p @ js ''#''"
    and "replace re_heading (Text []) (p @ js ''# '') = p"
proof -
  have "exec re_heading b (c # cs) = None" if "c \<in> set p" for b c cs
    using that assms by (intro exec_heading_None) auto
  from replace_from_skip [of p re_heading, OF this]
  show "replace re_heading (Text []) (p @ js ''#'') = p @ js ''#''"
    and "replace re_heading (Text []) (p @ js ''# '') = p"
    by (simp_all add: replace_def heading_at_end)
qed

lemma stripMarkdown_heading_at_end:
  assumes "markup_free p"
  shows "stripMarkdown (p @ js ''#'') = map nl2sp (p @ js ''#'')"
    and "stripMarkdown (p @ js ''# '') = map nl2sp p"
proof -
  from assms have p: "backtick \<notin> set p" "91 \<notin> set p" "35 \<notin> set p" "42 \<notin> set p" "95 \<notin> set p"
    by (auto simp add: markup_free_def list_all_iff isMarkup_def backtick_def)
  have j: "set (js ''#'') = {35}" "set (js ''# '') = {35, 32}"
    by (auto simp add: js_def)
  have a: "backtick \<notin> set (p @ js ''#'')" "91 \<notin> set (p @ js ''#'')"
          "42 \<notin> set (p @ js ''#'')" "95 \<notin> set (p @ js ''#'')"
    using p j by (simp_all add: backtick_def)
  have b: "backtick \<notin> set (p @ js ''# '')" "91 \<notin> set (p @ js ''# '')"
    using p j by (simp_all add: backtick_def)
  show "stripMarkdown (p @ js ''#'') = map nl2sp (p @ js ''#'')"
    unfolding stripMarkdown_def
    by (simp only: inert_codeBlock [OF a(1)] inert_inlineCode [OF a(1)] inert_image [OF a(2)]
          inert_link [OF a(2)] replace_heading_at_end(1) [OF p(3)] inert_emphasis [OF a(3,4)]
          replace_newline)
  show "stripMarkdown (p @ js ''# '') = map nl2sp p"
    unfolding stripMarkdown_def
    by (simp only: inert_codeBlock [OF b(1)] inert_inlineCode [OF b(1)] inert_image [OF b(2)]
          inert_link [OF b(2)] replace_heading_at_end(2) [OF p(3)] inert_emphasis [OF p(4,5)]
          replace_newline)
qed

lemma set_words: "set (concat (replicate n (js ''w ''))) \<subseteq> {119, 32}"
  by (induction n) (auto simp add: js_def)

lemma wordCount_words:
  "wordCount (concat (replicate n (js ''w '')) @ s) = n + wordCount s"
  by (induction n) (simp_all add: wordCount_def tokens_def js_def isSpace_def split: list.splits)

lemma line250_set: "set line250 \<subseteq> {119, 32, 10}"
  using set_words [of 250] by (auto simp add: line250_def newline_def)

lemma line250_props:
  "markup_free line250" "word_only line250"
  using line250_set
  by (auto simp add: markup_free_def word_only_def list_all_iff isMarkup_def isChinese_def)

lemma wordCount_line250:
  "wordCount line250 = 250" "wordCount (line250 @ js ''w'') = 251" "wordCount (line250 @ js ''#'') = 251"
  unfolding line250_def append_assoc wordCount_words
  by (simp_all add: wordCount_def tokens_def js_def isSpace_def newline_def)

lemma reading_time_word_only:
  assumes "word_only s"
  shows "max 1 \<lceil>(of_nat (cjkCount s) :: rat) / 200 +
            of_nat (wordCount (filter (\<lambda>c. \<not> isChinese c) s)) / 250\<rceil> =
         max 1 \<lceil>(of_nat (wordCount s) :: rat) / 250\<rceil>"
proof -
  from assms have "filter (\<lambda>c. \<not> isChinese c) s = s" "filter isChinese s = []"
    by (auto simp add: word_only_def list_all_iff filter_id_conv filter_empty_conv)
  then show ?thesis by (simp add: cjkCount_def)
qed

text \<open>
  Claim C8, as amended. When a text is extended, the reading time does not get
  smaller, provided that both texts have only code units from U+4E00 to U+9FA5,
  or that both have none of them and the longer one has none of the code units
  that start markup (backtick, opening bracket, hash, asterisk, underscore).
\<close>

theorem calculateReadingTime_monotone:
  assumes "(cjk_only t \<and> cjk_only (t @ s)) \<or>
           (word_only t \<and> word_only (t @ s) \<and> markup_free (t @ s))"
  shows "calculateReadingTime t \<le> calculateReadingTime (t @ s)"
  using assms cjk_only_markup_free [of "t @ s"] calculateReadingTime_plain_mono [of t s]
  by blast

theorem calculateReadingTime_monotone_witness:
  "word_only line250 \<and> word_only (line250 @ js ''w'') \<and> markup_free (line250 @ js ''w'') \<and>
   calculateReadingTime line250 = 1 \<and> calculateReadingTime (line250 @ js ''w'') = 2 \<and>
   calculateReadingTime line250 \<le> calculateReadingTime (line250 @ js ''w'')"
proof -
  have w: "word_only (line250 @ js ''w'')" and m: "markup_free (line250 @ js ''w'')"
    using line250_props
    by (simp_all add: word_only_def markup_free_def js_def isChinese_def isMarkup_def)
  have 1: "calculateReadingTime line250 = 1"
    using reading_time_word_only [OF line250_props(2)]
    by (simp add: calculateReadingTime_plain [OF line250_props(1)] wordCount_line250)
  have 2: "calculateReadingTime (line250 @ js ''w'') = 2"
    using reading_time_word_only [OF w]
    by (simp add: calculateReadingTime_plain [OF m] wordCount_line250 ceiling_eq_iff)
  from calculateReadingTime_monotone [of line250 "js ''w''"] line250_props w m 1 2
  show ?thesis by simp
qed

text \<open>
  Claim C8 as it is stated fails for texts of words with markup. The text of a
  line of 250 words and a second line \<^verbatim>\<open>#\<close> has 251 words and a reading time of
  2. Extended by a space, its second line is a heading marker, which is stripped:
  250 words are left, and the reading time is 1.
\<close>

theorem calculateReadingTime_heading_counterexample:
  "word_only (line250 @ js ''#'') \<and> word_only ((line250 @ js ''#'') @ js '' '') \<and>
   calculateReadingTime (line250 @ js ''#'') = 2 \<and>
   calculateReadingTime ((line250 @ js ''#'') @ js '' '') = 1"
proof -
  have e: "(line250 @ js ''#'') @ js '' '' = line250 @ js ''# ''"
    by (simp add: js_def)
  have w1: "word_only (line250 @ js ''#'')" and w2: "word_only (line250 @ js ''# '')"
    using line250_props(2) by (simp_all add: word_only_def js_def isChinese_def)
  note c1 = wordCount_line250(3) and c2 = wordCount_line250(1)
  have "calculateReadingTime (line250 @ js ''#'') = 2"
    using reading_time_word_only [OF w1]
    by (simp add: calculateReadingTime_eq stripMarkdown_heading_at_end(1) [OF line250_props(1)]
          cjkCount_map_nl2sp filter_map_nl2sp wordCount_map_nl2sp c1 ceiling_eq_iff
          del: map_append)
  moreover have "calculateReadingTime (line250 @ js ''# '') = 1"
    using reading_time_word_only [OF line250_props(2)]
    by (simp add: calculateReadingTime_eq stripMarkdown_heading_at_end(2) [OF line250_props(1)]
          cjkCount_map_nl2sp filter_map_nl2sp wordCount_map_nl2sp c2)
  ultimately show ?thesis using w1 w2 e by simp
qed


end
